theory Spec2Isabelle
  imports Main
begin

section \<open>Reflected values (the part of package reflect that return\_handler.go uses)\<close>

text \<open>
  A handler's results reach the return handler as a slice of \<open>reflect.Value\<close>.
  The source only looks at the kind of a value, at the kind of a slice's element type,
  at the value an interface or a pointer holds, and at the \<open>Bytes\<close>, \<open>Int\<close> and
  \<open>String\<close> readings. A Go string is a sequence of bytes, as a \<open>[]byte\<close> is, so both
  are lists of 8-bit characters and the conversion \<open>[]byte(s)\<close> is the identity.
\<close>

type_synonym bytes = "char list"

datatype kind = KInvalid | KInt | KString | KSlice | KPtr | KInterface | KUint8 | KOther

datatype rvalue =
    VInvalid                  \<comment> \<open>the zero \<open>reflect.Value\<close>\<close>
  | VInt int                  \<comment> \<open>a Go \<open>int\<close>\<close>
  | VString string
  | VBytes bytes              \<comment> \<open>a slice whose element kind is \<open>Uint8\<close>\<close>
  | VSlice string             \<comment> \<open>any other slice, with the name of its type\<close>
  | VPtr string rvalue        \<comment> \<open>a pointer: the name of its type and what it points to
                                  (\<open>VInvalid\<close> for a nil pointer)\<close>
  | VInterface string rvalue  \<comment> \<open>an interface value: the name of its type and what it holds\<close>
  | VOther string             \<comment> \<open>a value of any other kind, with the name of its type\<close>

fun Kind :: "rvalue \<Rightarrow> kind" where
  "Kind VInvalid = KInvalid"
| "Kind (VInt n) = KInt"
| "Kind (VString s) = KString"
| "Kind (VBytes b) = KSlice"
| "Kind (VSlice t) = KSlice"
| "Kind (VPtr t v) = KPtr"
| "Kind (VInterface t v) = KInterface"
| "Kind (VOther t) = KOther"

text \<open>\<open>val.Type().Elem().Kind()\<close>; the source asks for it on slices only.\<close>

fun ElemKind :: "rvalue \<Rightarrow> kind" where
  "ElemKind (VBytes b) = KUint8"
| "ElemKind v = KOther"

text \<open>\<open>val.Type().String()\<close>, the name that \<open>String\<close> prints for a value that is no string.\<close>

fun TypeName :: "rvalue \<Rightarrow> string" where
  "TypeName VInvalid = ''invalid''"
| "TypeName (VInt n) = ''int''"
| "TypeName (VString s) = ''string''"
| "TypeName (VBytes b) = ''[]uint8''"
| "TypeName (VSlice t) = t"
| "TypeName (VPtr t v) = t"
| "TypeName (VInterface t v) = t"
| "TypeName (VOther t) = t"

text \<open>
  \<open>Value.String\<close> returns the string of a string value and, for every other kind, the
  text \<open><T Value>\<close> with the name of the type; the zero Value gives \<open><invalid Value>\<close>.
\<close>

fun String :: "rvalue \<Rightarrow> string" where
  "String (VString s) = s"
| "String v = ''<'' @ TypeName v @ '' Value>''"

fun Bytes :: "rvalue \<Rightarrow> bytes" where
  "Bytes (VBytes b) = b"
| "Bytes v = []"

text \<open>\<open>Value.Int\<close> (named \<open>IntVal\<close> here: \<open>Int\<close> is HOL's intersection).\<close>

fun IntVal :: "rvalue \<Rightarrow> int" where
  "IntVal (VInt n) = n"
| "IntVal v = 0"

text \<open>\<open>Value.Elem\<close>: what an interface holds or a pointer points to.\<close>

fun Elem :: "rvalue \<Rightarrow> rvalue" where
  "Elem (VPtr t v) = v"
| "Elem (VInterface t v) = v"
| "Elem v = VInvalid"

text \<open>
  \<open>reflect.Zero\<close> of a value's type: what a function that recovers from a panic returns
  for a result it has not set.
\<close>

fun ZeroOf :: "rvalue \<Rightarrow> rvalue" where
  "ZeroOf VInvalid = VInvalid"
| "ZeroOf (VInt n) = VInt 0"
| "ZeroOf (VString s) = VString []"
| "ZeroOf (VBytes b) = VBytes []"
| "ZeroOf (VSlice t) = VSlice t"
| "ZeroOf (VPtr t v) = VPtr t VInvalid"
| "ZeroOf (VInterface t v) = VInterface t VInvalid"
| "ZeroOf (VOther t) = VOther t"

definition isByteSlice :: "rvalue \<Rightarrow> bool" where
  "isByteSlice val \<longleftrightarrow> Kind val = KSlice \<and> ElemKind val = KUint8"

definition canDeref :: "rvalue \<Rightarrow> bool" where
  "canDeref val \<longleftrightarrow> Kind val = KInterface \<or> Kind val = KPtr"

section \<open>The response sink\<close>

text \<open>
  What the transport's \<open>http.ResponseWriter\<close> has received so far is the list of the
  calls made on it.
\<close>

datatype rw_call = WriteHeader int | Write bytes

type_synonym http_ResponseWriter = "rw_call list"

text \<open>
  Modelled from the spec: the decorator \<open>NewResponseWriter\<close> and its \<open>Written\<close> signal
  are declared in a file that is not among the sources (only their uses in
  \<open>createContext\<close> and \<open>context.Written\<close> are). Section 3 of the specification gives the
  one attribute the core consumes: a boolean signal that becomes permanently true the first
  time any byte or status code is sent. The decorator hands every call on to the writer it
  wraps.
\<close>

record ResponseWriter =
  inner :: http_ResponseWriter
  flushed :: bool

definition NewResponseWriter :: "http_ResponseWriter \<Rightarrow> ResponseWriter" where
  "NewResponseWriter res = \<lparr>inner = res, flushed = False\<rparr>"

definition rw_WriteHeader :: "int \<Rightarrow> ResponseWriter \<Rightarrow> ResponseWriter" where
  "rw_WriteHeader s w = \<lparr>inner = inner w @ [WriteHeader s], flushed = True\<rparr>"

definition rw_Write :: "bytes \<Rightarrow> ResponseWriter \<Rightarrow> ResponseWriter" where
  "rw_Write b w = \<lparr>inner = inner w @ [Write b], flushed = (flushed w \<or> 0 < length b)\<rparr>"

definition rw_Written :: "ResponseWriter \<Rightarrow> bool" where
  "rw_Written w = flushed w"


section \<open>The service container\<close>

text \<open>
  Modelled from the spec: the injector comes from the package
  \<open>github.com/codegangsta/inject\<close>, which is not among the sources. Section 4.1 of the
  specification describes it: values are stored under a type, \<open>Map\<close> under the value's own
  concrete type and \<open>MapTo\<close> under a given interface type; \<open>Get\<close> reads this container and
  then its parent; \<open>Invoke\<close> resolves every parameter type of the callable and fails,
  without calling it, when one has no mapping.

  The types the program maps values under, and the values it maps: the request context
  itself, its response writer, the request, the logger and the return handler. The context
  and its writer are objects held by reference, so the service only names them.
\<close>

datatype tykey =
    TContext              \<comment> \<open>the interface \<open>martini.Context\<close>\<close>
  | TContextImpl          \<comment> \<open>the concrete type \<open>*martini.context\<close>\<close>
  | TResponseWriter       \<comment> \<open>the interface \<open>http.ResponseWriter\<close>\<close>
  | TResponseWriterImpl   \<comment> \<open>the concrete type of the decorated writer\<close>
  | TRequest              \<comment> \<open>\<open>*http.Request\<close>\<close>
  | TLogger               \<comment> \<open>\<open>*log.Logger\<close>\<close>
  | TReturnHandler        \<comment> \<open>\<open>martini.ReturnHandler\<close>\<close>
  | TOther string

datatype service =
    SContext | SResponseWriter | SRequest string | SLogger | SReturnHandler | SOther string

datatype injector = Injector (mapped: "tykey \<rightharpoonup> service") (parent: "injector option")

definition inject_New :: injector where
  "inject_New = Injector Map.empty None"

fun Get :: "injector \<Rightarrow> tykey \<Rightarrow> service option" where
  "Get (Injector vs p) t =
     (case vs t of
        Some v \<Rightarrow> Some v
      | None \<Rightarrow> (case p of None \<Rightarrow> None | Some q \<Rightarrow> Get q t))"

text \<open>The concrete type of a value, under which \<open>Map\<close> stores it.\<close>

fun TypeOf :: "service \<Rightarrow> tykey" where
  "TypeOf SContext = TContextImpl"
| "TypeOf SResponseWriter = TResponseWriterImpl"
| "TypeOf (SRequest r) = TRequest"
| "TypeOf SLogger = TLogger"
| "TypeOf SReturnHandler = TReturnHandler"
| "TypeOf (SOther t) = TOther t"

fun MapTo :: "service \<Rightarrow> tykey \<Rightarrow> injector \<Rightarrow> injector" where
  "MapTo v t (Injector vs p) = Injector (vs(t \<mapsto> v)) p"

definition Map :: "service \<Rightarrow> injector \<Rightarrow> injector" where
  "Map v ij = MapTo v (TypeOf v) ij"

fun SetParent :: "injector \<Rightarrow> injector \<Rightarrow> injector" where
  "SetParent q (Injector vs p) = Injector vs (Some q)"

text \<open>The first parameter type that \<open>Invoke\<close> cannot resolve, if there is one.\<close>

fun first_missing :: "injector \<Rightarrow> tykey list \<Rightarrow> tykey option" where
  "first_missing ij [] = None"
| "first_missing ij (t # ts) =
     (case Get ij t of None \<Rightarrow> Some t | Some v \<Rightarrow> first_missing ij ts)"


section \<open>Handlers\<close>

text \<open>
  A \<open>Handler\<close> is any Go function. What the dispatch loop can see of one is the list of its
  parameter types, the values it returns, and what its body does to the request context
  and to the response writer: it may call \<open>Next\<close>, write a status or bytes, do work of its
  own (labelled, so that its place in the order of events can be told), and panic.
  A body is the sequence of these steps. A handler may also recover from a panic, as the
  recovery middleware does with a deferred function that calls \<open>recover\<close>: when its body
  panics, in a step of its own or in a call of \<open>Next\<close>, the rest of the body is skipped,
  the steps of the deferred function run, and the handler returns to its caller as if
  nothing had happened, its results being the zero values of their types. \<open>rescue\<close> holds
  those steps, or nothing for a handler that does not recover. Every value of the type is
  a function, so \<open>validateHandler\<close>, which panics at registration on anything else, has
  nothing to reject here.
\<close>

datatype stmt =
    CallNext              \<comment> \<open>\<open>c.Next()\<close>\<close>
  | ResWrite bytes        \<comment> \<open>\<open>res.Write(b)\<close>\<close>
  | ResWriteHeader int    \<comment> \<open>\<open>res.WriteHeader(n)\<close>\<close>
  | DoWork nat
  | DoPanic string

record handler =
  params :: "tykey list"
  body :: "stmt list"
  rescue :: "stmt list option"
  rets :: "rvalue list"


section \<open>The application and the request context (martini.go)\<close>

record Martini =
  m_injector :: injector
  m_handlers :: "handler list"
  m_action :: handler

datatype panic =
    InvokeError tykey     \<comment> \<open>\<open>panic(err)\<close> in \<open>run\<close>, with the error of \<open>Invoke\<close>\<close>
  | InvalidIndex          \<comment> \<open>\<open>panic("invalid index for context handler")\<close>\<close>
  | IndexOutOfRange       \<comment> \<open>the runtime's panic on \<open>c.handlers[c.index]\<close>\<close>
  | HandlerPanic string   \<comment> \<open>a panic raised by a handler's body\<close>
  | InvalidValue          \<comment> \<open>\<open>Interface\<close> on the zero Value, or a failed type assertion\<close>

text \<open>
  The log of a request, kept beside the fields of the source so that the order of events
  can be stated: a handler is called at a cursor value (with the written signal as it is
  at that moment), \<open>Next\<close> is called (likewise), a body does labelled work, a panic is
  raised, a handler recovers from one.
\<close>

datatype event =
    Invoked int handler bool
  | NextCalled bool
  | Worked nat
  | Raised panic
  | Recovered

record context_t =
  injector :: injector
  handlers :: "handler list"
  action :: handler
  rw :: ResponseWriter
  index :: int
  trace :: "event list"

text \<open>A call returns a value or panics; the context is as the call left it either way.\<close>

datatype 'a outcome = Done 'a context_t | Panic panic context_t

fun ctx_of :: "'a outcome \<Rightarrow> context_t" where
  "ctx_of (Done x c) = c"
| "ctx_of (Panic p c) = c"

definition empty_func :: handler where
  "empty_func = \<lparr>params = [], body = [], rescue = None, rets = []\<rparr>"

definition New :: Martini where
  "New = \<lparr>m_injector = Map SReturnHandler (Map SLogger inject_New),
          m_handlers = [], m_action = empty_func\<rparr>"

definition Use :: "handler \<Rightarrow> Martini \<Rightarrow> Martini" where
  "Use h m = m\<lparr>m_handlers := m_handlers m @ [h]\<rparr>"

definition Handlers :: "handler list \<Rightarrow> Martini \<Rightarrow> Martini" where
  "Handlers hs m = fold Use hs (m\<lparr>m_handlers := []\<rparr>)"

definition Action :: "handler \<Rightarrow> Martini \<Rightarrow> Martini" where
  "Action h m = m\<lparr>m_action := h\<rparr>"

definition createContext :: "Martini \<Rightarrow> http_ResponseWriter \<Rightarrow> string \<Rightarrow> context_t" where
  "createContext m res req =
     (let c = \<lparr>injector = inject_New, handlers = m_handlers m, action = m_action m,
                rw = NewResponseWriter res, index = 0, trace = []\<rparr>;
          c = c\<lparr>injector := SetParent (m_injector m) (injector c)\<rparr>;
          c = c\<lparr>injector := MapTo SContext TContext (injector c)\<rparr>;
          c = c\<lparr>injector := MapTo SResponseWriter TResponseWriter (injector c)\<rparr>;
          c = c\<lparr>injector := Map (SRequest req) (injector c)\<rparr>
      in c)"

definition handler :: "context_t \<Rightarrow> panic + handler" where
  "handler c =
     (if index c < int (length (handlers c)) then
        (if index c < 0 then Inl IndexOutOfRange else Inr (handlers c ! nat (index c)))
      else if index c = int (length (handlers c)) then Inr (action c)
      else Inl InvalidIndex)"

definition Written :: "context_t \<Rightarrow> bool" where
  "Written c = rw_Written (rw c)"

text \<open>
  What the termination of the dispatch rests on: a call keeps the handler list and never
  moves the cursor back, so the number of cursor values left up to the end of the chain
  never grows.
\<close>

definition keeps :: "context_t \<Rightarrow> context_t \<Rightarrow> bool" where
  "keeps c c' \<longleftrightarrow> handlers c' = handlers c \<and> index c \<le> index c'"

definition remaining :: "context_t \<Rightarrow> nat" where
  "remaining c = nat (int (length (handlers c)) + 1 - index c)"

fun weight :: "(context_t + handler \<times> context_t) + (stmt list \<times> context_t + context_t)
    \<Rightarrow> nat \<times> nat \<times> nat" where
  "weight (Inl (Inl c)) =
     (remaining c, if index c \<le> int (length (handlers c)) then 4 else 0, 0)"
| "weight (Inl (Inr (h, c))) = (remaining c, 3, 0)"
| "weight (Inr (Inl (ss, c))) = (remaining c, 2, length ss)"
| "weight (Inr (Inr c)) = (remaining c, 1, 0)"

text \<open>
  The dispatch. \<open>run\<close> is the loop of \<open>context.run\<close>: while the cursor is within the chain
  it invokes the current handler, panics with the error of \<open>Invoke\<close> if there is one,
  drops the values the handler returned, moves the cursor on and returns if the response
  has been written. \<open>Invoke\<close> (modelled from the spec, see above) resolves the parameters
  and calls the handler: its body and, when the body panics and the handler recovers, the
  steps of its deferred function. \<open>call\<close> runs steps one by one; \<open>Next\<close> is
  \<open>context.Next\<close>. A panic is logged where it is raised.
\<close>

function run :: "context_t \<Rightarrow> unit outcome"
  and Invoke :: "handler \<Rightarrow> context_t \<Rightarrow> (rvalue list \<times> tykey option) outcome"
  and call :: "stmt list \<Rightarrow> context_t \<Rightarrow> unit outcome"
  and Next :: "context_t \<Rightarrow> unit outcome"
where
  "run c =
     (if index c \<le> int (length (handlers c)) then
        (case handler c of
           Inl p \<Rightarrow> Panic p (c\<lparr>trace := trace c @ [Raised p]\<rparr>)
         | Inr h \<Rightarrow>
            (case Invoke h c of
               Panic p c1 \<Rightarrow> Panic p c1
             | Done (vals, err) c1 \<Rightarrow>
                (case err of
                   Some t \<Rightarrow>
                     Panic (InvokeError t) (c1\<lparr>trace := trace c1 @ [Raised (InvokeError t)]\<rparr>)
                 | None \<Rightarrow>
                    (let c2 = c1\<lparr>index := index c1 + 1\<rparr>
                     in if Written c2 then Done () c2 else run c2))))
      else Done () c)"
| "Invoke h c =
     (case first_missing (injector c) (params h) of
        Some t \<Rightarrow> Done ([], Some t) c
      | None \<Rightarrow>
         (case call (body h) (c\<lparr>trace := trace c @ [Invoked (index c) h (Written c)]\<rparr>) of
            Done u c1 \<Rightarrow> Done (rets h, None) c1
          | Panic p c1 \<Rightarrow>
             (case rescue h of
                None \<Rightarrow> Panic p c1
              | Some ds \<Rightarrow>
                 (case call ds (c1\<lparr>trace := trace c1 @ [Recovered]\<rparr>) of
                    Done u c2 \<Rightarrow> Done (map ZeroOf (rets h), None) c2
                  | Panic q c2 \<Rightarrow> Panic q c2))))"
| "call [] c = Done () c"
| "call (CallNext # ss) c =
     (case Next c of Panic p c1 \<Rightarrow> Panic p c1 | Done u c1 \<Rightarrow> call ss c1)"
| "call (ResWrite b # ss) c = call ss (c\<lparr>rw := rw_Write b (rw c)\<rparr>)"
| "call (ResWriteHeader n # ss) c = call ss (c\<lparr>rw := rw_WriteHeader n (rw c)\<rparr>)"
| "call (DoWork x # ss) c = call ss (c\<lparr>trace := trace c @ [Worked x]\<rparr>)"
| "call (DoPanic msg # ss) c =
     Panic (HandlerPanic msg) (c\<lparr>trace := trace c @ [Raised (HandlerPanic msg)]\<rparr>)"
| "Next c = run (c\<lparr>index := index c + 1, trace := trace c @ [NextCalled (Written c)]\<rparr>)"
  by pat_completeness auto

termination
proof -
  let ?R = "inv_image (less_than <*lex*> less_than <*lex*> less_than) weight"
  have keep:
    "run_Invoke_call_Next_dom (Inl (Inl c)) \<Longrightarrow> keeps c (ctx_of (run c))"
    "run_Invoke_call_Next_dom (Inl (Inr (h, c))) \<Longrightarrow> keeps c (ctx_of (Invoke h c))"
    "run_Invoke_call_Next_dom (Inr (Inl (ss, c))) \<Longrightarrow> keeps c (ctx_of (call ss c))"
    "run_Invoke_call_Next_dom (Inr (Inr c)) \<Longrightarrow> keeps c (ctx_of (Next c))"
    for c h ss
  proof (induct rule: run_Invoke_call_Next.pinduct)
    case (1 c)
    show ?case
    proof (cases "index c \<le> int (length (handlers c))")
      case False
      with 1(1) show ?thesis by (simp add: run.psimps keeps_def)
    next
      case le: True
      show ?thesis
      proof (cases "handler c")
        case (Inl p)
        with 1(1) le show ?thesis by (simp add: run.psimps keeps_def)
      next
        case (Inr h)
        note k1 = 1(2)[OF le Inr]
        show ?thesis
        proof (cases "Invoke h c")
          case (Panic p c1)
          with 1(1) le Inr k1 show ?thesis by (simp add: run.psimps)
        next
          case (Done r c1)
          obtain vals err where r: "r = (vals, err)" by (cases r)
          show ?thesis
          proof (cases "err = None \<and> \<not> Written (c1\<lparr>index := index c1 + 1\<rparr>)")
            case False
            with 1(1) le Inr k1 Done r show ?thesis
              by (auto simp: run.psimps keeps_def Let_def split: option.splits)
          next
            case True
            then have e: "err = None" and w: "\<not> Written (c1\<lparr>index := index c1 + 1\<rparr>)"
              by simp_all
            from 1(3)[OF le Inr Done r[symmetric] e refl w]
            have "keeps (c1\<lparr>index := index c1 + 1\<rparr>)
                    (ctx_of (run (c1\<lparr>index := index c1 + 1\<rparr>)))" .
            with 1(1) le Inr k1 Done r e w show ?thesis
              by (auto simp: run.psimps keeps_def Let_def)
          qed
        qed
      qed
    qed
  next
    case (2 h c)
    let ?c0 = "c\<lparr>trace := trace c @ [Invoked (index c) h (Written c)]\<rparr>"
    show ?case
    proof (cases "first_missing (injector c) (params h)")
      case (Some t)
      with 2(1) show ?thesis by (simp add: Invoke.psimps keeps_def)
    next
      case None
      note k0 = 2(2)[OF None]
      show ?thesis
      proof (cases "call (body h) ?c0")
        case (Done u c1)
        with 2(1) None k0 show ?thesis by (simp add: Invoke.psimps keeps_def)
      next
        case (Panic p c1)
        show ?thesis
        proof (cases "rescue h")
          case no: None
          with 2(1) None Panic k0 show ?thesis by (simp add: Invoke.psimps keeps_def)
        next
          case yes: (Some ds)
          note k1 = 2(3)[OF None Panic yes]
          with 2(1) None Panic yes k0 show ?thesis
            by (cases "call ds (c1\<lparr>trace := trace c1 @ [Recovered]\<rparr>)")
              (auto simp: Invoke.psimps keeps_def)
        qed
      qed
    qed
  next
    case (4 ss c)
    then show ?case
      by (auto simp: call.psimps keeps_def split: outcome.splits)
  next
    case (9 c)
    then show ?case
      by (auto simp: Next.psimps keeps_def)
  qed (auto simp: call.psimps keeps_def)
  show ?thesis
  proof (relation ?R)
    show "wf ?R"
      by (intro wf_inv_image wf_lex_prod wf_less_than)
  next
    fix c h
    assume "index c \<le> int (length (handlers c))" "handler c = Inr h"
    then show "(Inl (Inr (h, c)), Inl (Inl c)) \<in> ?R"
      by (simp add: remaining_def)
  next
    fix c h r c1 c2
    assume a: "index c \<le> int (length (handlers c))" "Invoke h c = Done r c1"
      "c2 = c1\<lparr>index := index c1 + 1\<rparr>" "run_Invoke_call_Next_dom (Inl (Inr (h, c)))"
    from keep(2)[OF a(4)] a(2) have "keeps c c1" by simp
    with a(1,3) show "(Inl (Inl c2), Inl (Inl c)) \<in> ?R"
      by (auto simp: remaining_def keeps_def)
  next
    fix h c
    show "(Inr (Inl (body h, c\<lparr>trace := trace c @ [Invoked (index c) h (Written c)]\<rparr>)),
           Inl (Inr (h, c))) \<in> ?R"
      by (simp add: remaining_def)
  next
    fix h c p c1 ds
    assume a: "call (body h) (c\<lparr>trace := trace c @ [Invoked (index c) h (Written c)]\<rparr>)
        = Panic p c1"
      "run_Invoke_call_Next_dom
         (Inr (Inl (body h, c\<lparr>trace := trace c @ [Invoked (index c) h (Written c)]\<rparr>)))"
    from keep(3)[OF a(2)] a(1)
    have "keeps (c\<lparr>trace := trace c @ [Invoked (index c) h (Written c)]\<rparr>) c1" by simp
    then show "(Inr (Inl (ds, c1\<lparr>trace := trace c1 @ [Recovered]\<rparr>)), Inl (Inr (h, c))) \<in> ?R"
      by (auto simp: remaining_def keeps_def)
  next
    fix ss c
    show "(Inr (Inr c), Inr (Inl (CallNext # ss, c))) \<in> ?R"
      by (simp add: remaining_def)
  next
    fix ss c u c1
    assume a: "Next c = Done u c1" "run_Invoke_call_Next_dom (Inr (Inr c))"
    from keep(4)[OF a(2)] a(1) have "keeps c c1" by simp
    then show "(Inr (Inl (ss, c1)), Inr (Inl (CallNext # ss, c))) \<in> ?R"
      by (auto simp: remaining_def keeps_def)
  next
    fix c
    show "(Inl (Inl (c\<lparr>index := index c + 1, trace := trace c @ [NextCalled (Written c)]\<rparr>)),
           Inr (Inr c)) \<in> ?R"
      by (auto simp: remaining_def)
  qed (simp_all add: remaining_def)
qed

definition ServeHTTP :: "Martini \<Rightarrow> http_ResponseWriter \<Rightarrow> string \<Rightarrow> unit outcome" where
  "ServeHTTP m res req = run (createContext m res req)"


section \<open>The default return handler (return\_handler.go)\<close>

text \<open>
  The function that \<open>defaultReturnHandler\<close> returns. It takes the response writer from
  the context (\<open>Interface\<close> panics on the zero Value that \<open>Get\<close> gives for a type with no
  mapping), writes the first of two or more values as the status when its kind is \<open>Int\<close>,
  picks the value to write, takes what an interface or pointer holds, and writes the bytes
  of a byte slice or else what \<open>String\<close> gives.
\<close>

definition defaultReturnHandler :: "context_t \<Rightarrow> rvalue list \<Rightarrow> unit outcome" where
  "defaultReturnHandler ctx vals =
     (case Get (injector ctx) TResponseWriter of
        Some SResponseWriter \<Rightarrow>
          (let (c1, responseVal) =
                 (if length vals > 1 \<and> Kind (vals ! 0) = KInt
                  then (ctx\<lparr>rw := rw_WriteHeader (IntVal (vals ! 0)) (rw ctx)\<rparr>, vals ! 1)
                  else if length vals > 0 then (ctx, vals ! 0)
                  else (ctx, VInvalid));
               responseVal = (if canDeref responseVal then Elem responseVal else responseVal)
           in if isByteSlice responseVal
              then Done () (c1\<lparr>rw := rw_Write (Bytes responseVal) (rw c1)\<rparr>)
              else Done () (c1\<lparr>rw := rw_Write (String responseVal) (rw c1)\<rparr>))
      | _ \<Rightarrow> Panic InvalidValue ctx)"



section \<open>Notions for stating the properties\<close>

text \<open>
  The calls of handlers in a log, in its order: the cursor values alone, and each cursor
  value with the handler called there.
\<close>

fun cursors :: "event list \<Rightarrow> int list" where
  "cursors [] = []"
| "cursors (Invoked i h w # es) = i # cursors es"
| "cursors (e # es) = cursors es"

fun started :: "event list \<Rightarrow> (int \<times> handler) list" where
  "started [] = []"
| "started (Invoked i h w # es) = (i, h) # started es"
| "started (e # es) = started es"

text \<open>How many times a handler recovered from a panic.\<close>

definition recoveries :: "event list \<Rightarrow> nat" where
  "recoveries t = length (filter (\<lambda>e. e = Recovered) t)"

text \<open>
  The chain of a context: its middleware in the order of registration and then the action;
  and the part of it that is still to come from a cursor value on, each handler with the
  cursor value it is called at.
\<close>

definition chain :: "context_t \<Rightarrow> handler list" where
  "chain c = handlers c @ [action c]"

definition upcoming :: "context_t \<Rightarrow> int \<Rightarrow> (int \<times> handler) list" where
  "upcoming c i = zip [i..int (length (handlers c))] (drop (nat i) (chain c))"

text \<open>
  What every call of the dispatch leaves as it is or only moves forward: the chain, the
  action and the container stay, the cursor does not go back, the written signal does not
  revert, and the log only grows.
\<close>

definition follows :: "context_t \<Rightarrow> context_t \<Rightarrow> bool" where
  "follows c c' \<longleftrightarrow>
     handlers c' = handlers c \<and> action c' = action c \<and> injector c' = injector c \<and>
     index c \<le> index c' \<and> (Written c \<longrightarrow> Written c') \<and> (\<exists>t. trace c' = trace c @ t)"

text \<open>
  A step that neither writes to the response nor panics, and a context in which the
  response is unwritten and every handler and the action have resolvable parameters and
  bodies of such steps only.
\<close>

fun silent :: "stmt \<Rightarrow> bool" where
  "silent CallNext = True"
| "silent (DoWork x) = True"
| "silent s = False"

definition quiet :: "context_t \<Rightarrow> bool" where
  "quiet c \<longleftrightarrow>
     \<not> Written c \<and>
     list_all (\<lambda>h. first_missing (injector c) (params h) = None \<and> list_all silent (body h))
       (chain c)"

text \<open>
  The log that the specification prescribes for handlers that neither write nor fail,
  written down from its words and not from the code: the handlers run in the order of
  registration, the action after them; each does the steps of its body in their order;
  where a body calls \<open>Next\<close> for the first time, all the handlers after it and the action
  run before that call returns, and the body's remaining steps come after them (a later
  call of \<open>Next\<close> finds nothing left to run); a handler that does not call \<open>Next\<close> is
  followed by the rest of the chain when it has returned.
\<close>

fun weave :: "stmt list \<Rightarrow> event list \<Rightarrow> event list" where
  "weave [] rest = rest"
| "weave (DoWork x # ss) rest = Worked x # weave ss rest"
| "weave (CallNext # ss) rest = NextCalled False # rest @ weave ss []"
| "weave (s # ss) rest = weave ss rest"

fun prescribed :: "handler list \<Rightarrow> int \<Rightarrow> event list" where
  "prescribed [] i = []"
| "prescribed (h # hs) i = Invoked i h False # weave (body h) (prescribed hs (i + 1))"

text \<open>The same handler, log and context with all returned values taken away.\<close>

definition forget :: "handler \<Rightarrow> handler" where
  "forget h = h\<lparr>rets := []\<rparr>"

fun forget_event :: "event \<Rightarrow> event" where
  "forget_event (Invoked i h w) = Invoked i (forget h) w"
| "forget_event e = e"

definition forget_rets :: "context_t \<Rightarrow> context_t" where
  "forget_rets c = c\<lparr>handlers := map forget (handlers c), action := forget (action c),
                      trace := map forget_event (trace c)\<rparr>"

fun on_ctx :: "(context_t \<Rightarrow> context_t) \<Rightarrow> 'a outcome \<Rightarrow> 'a outcome" where
  "on_ctx f (Done x c) = Done x (f c)"
| "on_ctx f (Panic p c) = Panic p (f c)"

text \<open>The panic of an outcome, if it is one.\<close>

fun fault :: "'a outcome \<Rightarrow> panic option" where
  "fault (Done x c) = None"
| "fault (Panic p c) = Some p"

text \<open>
  A stretch of the log in which the cursor values of the handlers started go strictly up
  and stay between two bounds; and an outcome that is no panic of \<open>context.handler\<close> and
  whose log is the earlier log and then such a stretch, bounded above by the length of the
  chain and by the cursor at the end.
\<close>

definition ascending :: "int \<Rightarrow> int \<Rightarrow> event list \<Rightarrow> bool" where
  "ascending lo hi t \<longleftrightarrow>
     sorted_wrt (<) (cursors t) \<and> list_all (\<lambda>i. lo \<le> i \<and> i \<le> hi) (cursors t)"

definition in_order :: "context_t \<Rightarrow> int \<Rightarrow> 'a outcome \<Rightarrow> bool" where
  "in_order c lo r \<longleftrightarrow>
     fault r \<noteq> Some InvalidIndex \<and> fault r \<noteq> Some IndexOutOfRange \<and>
     (\<exists>t. trace (ctx_of r) = trace c @ t \<and>
        ascending lo (min (int (length (handlers c))) (index (ctx_of r))) t)"

text \<open>
  A stretch of the log in which every panic raised is at once followed by a handler's
  recovery, with nothing in between; and what a call has added to the log, set against its
  outcome: after a return every panic was so recovered, and after a panic the panic that
  comes out is the last thing logged and every one before it was so recovered.
\<close>

fun handled :: "event list \<Rightarrow> bool" where
  "handled [] = True"
| "handled (Raised p # Recovered # es) = handled es"
| "handled (Raised p # es) = False"
| "handled (e # es) = handled es"

fun settles :: "event list \<Rightarrow> 'a outcome \<Rightarrow> bool" where
  "settles t (Done x c) = handled t"
| "settles t (Panic p c) = (\<exists>t0. t = t0 @ [Raised p] \<and> handled t0)"

definition no_rescue :: "context_t \<Rightarrow> bool" where
  "no_rescue c \<longleftrightarrow> list_all (\<lambda>h. rescue h = None) (chain c)"


section \<open>Reasoning about the dispatch\<close>

declare run.simps [simp del] Invoke.simps [simp del] Next.simps [simp del]

lemma Written_simps [simp]:
  "Written (c\<lparr>index := i\<rparr>) = Written c"
  "Written (c\<lparr>trace := t\<rparr>) = Written c"
  by (simp_all add: Written_def)

text \<open>The induction that follows the calls of the four functions.\<close>

lemma dispatch_induct
  [case_names run Invoke Nil CallNext ResWrite ResWriteHeader DoWork DoPanic Next]:
  assumes "\<And>c. \<lbrakk>\<And>h. \<lbrakk>index c \<le> int (length (handlers c)); handler c = Inr h\<rbrakk> \<Longrightarrow> Q h c;
               \<And>h vals c1. \<lbrakk>index c \<le> int (length (handlers c)); handler c = Inr h;
                   Invoke h c = Done (vals, None) c1; \<not> Written (c1\<lparr>index := index c1 + 1\<rparr>)\<rbrakk>
                 \<Longrightarrow> P (c1\<lparr>index := index c1 + 1\<rparr>)\<rbrakk> \<Longrightarrow> P c"
    and "\<And>h c. \<lbrakk>first_missing (injector c) (params h) = None \<Longrightarrow>
              R (body h) (c\<lparr>trace := trace c @ [Invoked (index c) h (Written c)]\<rparr>);
            \<And>p c1 ds. \<lbrakk>first_missing (injector c) (params h) = None;
               call (body h) (c\<lparr>trace := trace c @ [Invoked (index c) h (Written c)]\<rparr>)
                 = Panic p c1;
               rescue h = Some ds\<rbrakk>
              \<Longrightarrow> R ds (c1\<lparr>trace := trace c1 @ [Recovered]\<rparr>)\<rbrakk> \<Longrightarrow> Q h c"
    and "\<And>c. R [] c"
    and "\<And>ss c. \<lbrakk>S c; \<And>c1. Next c = Done () c1 \<Longrightarrow> R ss c1\<rbrakk> \<Longrightarrow> R (CallNext # ss) c"
    and "\<And>b ss c. R ss (c\<lparr>rw := rw_Write b (rw c)\<rparr>) \<Longrightarrow> R (ResWrite b # ss) c"
    and "\<And>n ss c. R ss (c\<lparr>rw := rw_WriteHeader n (rw c)\<rparr>) \<Longrightarrow> R (ResWriteHeader n # ss) c"
    and "\<And>x ss c. R ss (c\<lparr>trace := trace c @ [Worked x]\<rparr>) \<Longrightarrow> R (DoWork x # ss) c"
    and "\<And>msg ss c. R (DoPanic msg # ss) c"
    and "\<And>c. P (c\<lparr>index := index c + 1, trace := trace c @ [NextCalled (Written c)]\<rparr>) \<Longrightarrow> S c"
  shows "P c" and "Q h c" and "R ss c" and "S c"
proof (induct c and h c and ss c and c rule: run_Invoke_call_Next.induct)
  case (1 c)
  show ?case
    by (rule assms(1)) (use 1 in auto)
qed (auto intro: assms)

text \<open>One turn of the loop of \<open>run\<close>, and one \<open>Invoke\<close>, by the ways they can go.\<close>

lemma run_cases [consumes 0, case_names past invalid panic error written continue]:
  assumes "\<lbrakk>\<not> index c \<le> int (length (handlers c)); run c = Done () c\<rbrakk> \<Longrightarrow> T"
    and "\<And>p. \<lbrakk>index c \<le> int (length (handlers c)); handler c = Inl p;
            run c = Panic p (c\<lparr>trace := trace c @ [Raised p]\<rparr>)\<rbrakk> \<Longrightarrow> T"
    and "\<And>h p c1. \<lbrakk>index c \<le> int (length (handlers c)); handler c = Inr h;
            Invoke h c = Panic p c1; run c = Panic p c1\<rbrakk> \<Longrightarrow> T"
    and "\<And>h vals t c1. \<lbrakk>index c \<le> int (length (handlers c)); handler c = Inr h;
            Invoke h c = Done (vals, Some t) c1;
            run c = Panic (InvokeError t) (c1\<lparr>trace := trace c1 @ [Raised (InvokeError t)]\<rparr>)\<rbrakk>
          \<Longrightarrow> T"
    and "\<And>h vals c1. \<lbrakk>index c \<le> int (length (handlers c)); handler c = Inr h;
            Invoke h c = Done (vals, None) c1; Written (c1\<lparr>index := index c1 + 1\<rparr>);
            run c = Done () (c1\<lparr>index := index c1 + 1\<rparr>)\<rbrakk> \<Longrightarrow> T"
    and "\<And>h vals c1. \<lbrakk>index c \<le> int (length (handlers c)); handler c = Inr h;
            Invoke h c = Done (vals, None) c1; \<not> Written (c1\<lparr>index := index c1 + 1\<rparr>);
            run c = run (c1\<lparr>index := index c1 + 1\<rparr>)\<rbrakk> \<Longrightarrow> T"
  shows T
proof (cases "index c \<le> int (length (handlers c))")
  case False
  then show ?thesis using assms(1) by (simp add: run.simps)
next
  case le: True
  show ?thesis
  proof (cases "handler c")
    case (Inl p)
    with le show ?thesis using assms(2) by (simp add: run.simps)
  next
    case (Inr h)
    show ?thesis
    proof (cases "Invoke h c")
      case (Panic p c1)
      with le Inr show ?thesis using assms(3) by (simp add: run.simps)
    next
      case (Done r c1)
      obtain vals err where r: "r = (vals, err)" by (cases r)
      show ?thesis
      proof (cases err)
        case (Some t)
        with le Inr Done r show ?thesis using assms(4) by (simp add: run.simps)
      next
        case None
        with le Inr Done r show ?thesis using assms(5)[of h vals c1] assms(6)[of h vals c1]
          by (cases "Written (c1\<lparr>index := index c1 + 1\<rparr>)") (simp_all add: run.simps Let_def)
      qed
    qed
  qed
qed

lemma Invoke_cases [consumes 0, case_names missing returned panic recovered failed]:
  assumes "\<And>t. \<lbrakk>first_missing (injector c) (params h) = Some t;
           Invoke h c = Done ([], Some t) c\<rbrakk> \<Longrightarrow> T"
    and "\<And>c1. \<lbrakk>first_missing (injector c) (params h) = None;
           call (body h) (c\<lparr>trace := trace c @ [Invoked (index c) h (Written c)]\<rparr>) = Done () c1;
           Invoke h c = Done (rets h, None) c1\<rbrakk> \<Longrightarrow> T"
    and "\<And>p c1. \<lbrakk>first_missing (injector c) (params h) = None;
           call (body h) (c\<lparr>trace := trace c @ [Invoked (index c) h (Written c)]\<rparr>) = Panic p c1;
           rescue h = None; Invoke h c = Panic p c1\<rbrakk> \<Longrightarrow> T"
    and "\<And>p c1 ds c2. \<lbrakk>first_missing (injector c) (params h) = None;
           call (body h) (c\<lparr>trace := trace c @ [Invoked (index c) h (Written c)]\<rparr>) = Panic p c1;
           rescue h = Some ds; call ds (c1\<lparr>trace := trace c1 @ [Recovered]\<rparr>) = Done () c2;
           Invoke h c = Done (map ZeroOf (rets h), None) c2\<rbrakk> \<Longrightarrow> T"
    and "\<And>p c1 ds q c2. \<lbrakk>first_missing (injector c) (params h) = None;
           call (body h) (c\<lparr>trace := trace c @ [Invoked (index c) h (Written c)]\<rparr>) = Panic p c1;
           rescue h = Some ds; call ds (c1\<lparr>trace := trace c1 @ [Recovered]\<rparr>) = Panic q c2;
           Invoke h c = Panic q c2\<rbrakk> \<Longrightarrow> T"
  shows T
proof (cases "first_missing (injector c) (params h)")
  case (Some t)
  then show ?thesis using assms(1) by (simp add: Invoke.simps)
next
  case None
  show ?thesis
  proof (cases "call (body h) (c\<lparr>trace := trace c @ [Invoked (index c) h (Written c)]\<rparr>)")
    case (Done u c1)
    with None show ?thesis using assms(2) by (simp add: Invoke.simps)
  next
    case (Panic p c1)
    show ?thesis
    proof (cases "rescue h")
      case no: None
      with None Panic show ?thesis using assms(3) by (simp add: Invoke.simps)
    next
      case yes: (Some ds)
      with None Panic show ?thesis using assms(4)[of p c1 ds] assms(5)[of p c1 ds]
        by (cases "call ds (c1\<lparr>trace := trace c1 @ [Recovered]\<rparr>)")
          (simp_all add: Invoke.simps)
    qed
  qed
qed

lemma follows_refl: "follows c c"
  by (simp add: follows_def)

lemma follows_trans: "follows a b \<Longrightarrow> follows b c \<Longrightarrow> follows a c"
  by (auto simp: follows_def)

lemma follows_fields:
  assumes "follows c c'"
  shows "handlers c' = handlers c" "action c' = action c" "injector c' = injector c"
    "index c \<le> index c'" "Written c \<Longrightarrow> Written c'"
  using assms by (simp_all add: follows_def)

lemma follows_log: "follows (c\<lparr>trace := trace c @ t\<rparr>) c' \<Longrightarrow> follows c c'"
  by (auto simp: follows_def)

lemma frame:
  "follows c (ctx_of (run c))"
  "follows c (ctx_of (Invoke h c))"
  "follows c (ctx_of (call ss c))"
  "follows c (ctx_of (Next c))"
proof (induct c and h c and ss c and c rule: dispatch_induct)
  case (run c)
  show ?case
  proof (cases c rule: run_cases)
    case (continue h vals c1)
    from run(1)[OF continue(1,2)] run(2)[OF continue(1-4)] continue show ?thesis
      by (auto simp: follows_def)
  next
    case (written h vals c1)
    from run(1)[OF written(1,2)] written show ?thesis
      by (auto simp: follows_def Written_def)
  next
    case (panic h p c1)
    from run(1)[OF panic(1,2)] panic show ?thesis by simp
  next
    case (error h vals t c1)
    from run(1)[OF error(1,2)] error show ?thesis by (auto simp: follows_def)
  qed (simp_all add: follows_def)
next
  case (Invoke h c)
  show ?case
  proof (cases h c rule: Invoke_cases)
    case (missing t)
    then show ?thesis by (simp add: follows_refl)
  next
    case (returned c1)
    with Invoke(1) show ?thesis by (auto intro: follows_log)
  next
    case (panic p c1)
    with Invoke(1) show ?thesis by (auto intro: follows_log)
  next
    case (recovered p c1 ds c2)
    from Invoke(1)[OF recovered(1)] recovered(2) have "follows c c1"
      by (auto intro: follows_log)
    moreover from Invoke(2)[OF recovered(1,2,3)] recovered(4) have "follows c1 c2"
      by (auto intro: follows_log)
    ultimately show ?thesis using recovered(5) by (auto intro: follows_trans)
  next
    case (failed p c1 ds q c2)
    from Invoke(1)[OF failed(1)] failed(2) have "follows c c1"
      by (auto intro: follows_log)
    moreover from Invoke(2)[OF failed(1,2,3)] failed(4) have "follows c1 c2"
      by (auto intro: follows_log)
    ultimately show ?thesis using failed(5) by (auto intro: follows_trans)
  qed
next
  case (CallNext ss c)
  then show ?case
    by (cases "Next c") (auto intro: follows_trans)
next
  case (Next c)
  then show ?case by (auto simp: Next.simps follows_def)
qed (auto simp: follows_def Written_def rw_Written_def rw_Write_def rw_WriteHeader_def)


lemma cursors_append [simp]: "cursors (a @ b) = cursors a @ cursors b"
  by (induct a rule: cursors.induct) simp_all

lemma started_append [simp]: "started (a @ b) = started a @ started b"
  by (induct a rule: started.induct) simp_all

lemma recoveries_append [simp]: "recoveries (a @ b) = recoveries a + recoveries b"
  by (simp add: recoveries_def)

lemma recoveries_single [simp]:
  "recoveries [Recovered] = 1" "recoveries [Invoked i h w] = 0" "recoveries [NextCalled w] = 0"
  "recoveries [Worked x] = 0" "recoveries [Raised p] = 0"
  by (simp_all add: recoveries_def)

lemma follows_recoveries:
  "follows c c' \<Longrightarrow> recoveries (trace c) \<le> recoveries (trace c')"
  by (auto simp: follows_def)

lemma upto_from: "i \<le> n \<Longrightarrow> [i..n] = i # [i + 1..n]"
  by (simp add: upto_rec1)

lemma upcoming_past: "int (length (handlers c)) < i \<Longrightarrow> upcoming c i = []"
  by (simp add: upcoming_def)

lemma upcoming_step:
  assumes "0 \<le> i" "i \<le> int (length (handlers c))"
  shows "upcoming c i = (i, chain c ! nat i) # upcoming c (i + 1)"
proof -
  from assms have "nat i < length (chain c)" by (simp add: chain_def)
  then have "drop (nat i) (chain c) = chain c ! nat i # drop (Suc (nat i)) (chain c)"
    by (simp add: Cons_nth_drop_Suc)
  moreover from assms(1) have "nat (i + 1) = Suc (nat i)" by simp
  ultimately show ?thesis using assms(2) by (simp add: upcoming_def upto_from)
qed

lemma upcoming_follows: "follows c c' \<Longrightarrow> upcoming c' i = upcoming c i"
  by (simp add: upcoming_def chain_def follows_def)

lemma handler_chain:
  assumes "handler c = Inr h"
  shows "0 \<le> index c" "index c \<le> int (length (handlers c))" "h = chain c ! nat (index c)"
  using assms by (auto simp: handler_def chain_def nth_append split: if_splits)

lemma handler_in_chain:
  assumes "0 \<le> index c" "index c \<le> int (length (handlers c))"
  shows "\<exists>h. handler c = Inr h \<and> h \<in> set (chain c)"
  using assms by (auto simp: handler_def chain_def)

text \<open>
  If a call returns with the response unwritten and no handler has recovered from a panic
  during it, then every handler from the cursor on and the action were called in it, each
  once and in order.
\<close>

lemma unwritten_traversal:
  "\<forall>c'. run c = Done () c' \<longrightarrow> \<not> Written c' \<longrightarrow> recoveries (trace c') = recoveries (trace c) \<longrightarrow>
     started (trace c') = started (trace c) @ upcoming c (index c) \<and>
     int (length (handlers c)) < index c'"
  "\<forall>vals c'. Invoke h c = Done (vals, None) c' \<longrightarrow> \<not> Written c' \<longrightarrow>
     recoveries (trace c') = recoveries (trace c) \<longrightarrow>
     (started (trace c') = started (trace c) @ [(index c, h)] \<and> index c' = index c) \<or>
     (started (trace c') = started (trace c) @ (index c, h) # upcoming c (index c + 1) \<and>
      int (length (handlers c)) < index c')"
  "\<forall>c'. call ss c = Done () c' \<longrightarrow> \<not> Written c' \<longrightarrow> recoveries (trace c') = recoveries (trace c) \<longrightarrow>
     (started (trace c') = started (trace c) \<and> index c' = index c) \<or>
     (started (trace c') = started (trace c) @ upcoming c (index c + 1) \<and>
      int (length (handlers c)) < index c')"
  "\<forall>c'. Next c = Done () c' \<longrightarrow> \<not> Written c' \<longrightarrow> recoveries (trace c') = recoveries (trace c) \<longrightarrow>
     started (trace c') = started (trace c) @ upcoming c (index c + 1) \<and>
     int (length (handlers c)) < index c'"
proof (induct c and h c and ss c and c rule: dispatch_induct)
  case (run c)
  show ?case
  proof (intro allI impI)
    fix c'
    assume r: "run c = Done () c'" and w: "\<not> Written c'"
      and e: "recoveries (trace c') = recoveries (trace c)"
    show "started (trace c') = started (trace c) @ upcoming c (index c) \<and>
          int (length (handlers c)) < index c'"
    proof (cases c rule: run_cases)
      case past
      with r show ?thesis by (simp add: upcoming_past)
    next
      case (written h vals c1)
      with r w show ?thesis by simp
    next
      case (continue h vals c1)
      let ?c2 = "c1\<lparr>index := index c1 + 1\<rparr>"
      have f: "follows c c1" using frame(2)[of c h] continue(3) by simp
      have f2: "follows ?c2 c'" using frame(1)[of ?c2] r continue(5) by simp
      from follows_recoveries[OF f] follows_recoveries[OF f2] e
      have e1: "recoveries (trace c1) = recoveries (trace c)"
        and e2: "recoveries (trace c') = recoveries (trace ?c2)" by simp_all
      have q: "(started (trace c1) = started (trace c) @ [(index c, h)] \<and> index c1 = index c) \<or>
         (started (trace c1) = started (trace c) @ (index c, h) # upcoming c (index c + 1) \<and>
          int (length (handlers c)) < index c1)"
        using run(1)[OF continue(1,2)] continue(3,4) e1 by simp
      have p: "started (trace c') = started (trace ?c2) @ upcoming ?c2 (index ?c2) \<and>
          int (length (handlers ?c2)) < index c'"
        using run(2)[OF continue(1-4)] r w e2 continue(5) by simp
      have u: "upcoming ?c2 = upcoming c" using upcoming_follows[OF f]
        by (simp add: upcoming_def chain_def fun_eq_iff)
      from handler_chain[OF continue(2)]
      have s: "upcoming c (index c) = (index c, h) # upcoming c (index c + 1)"
        using upcoming_step[of "index c" c] by simp
      from q p follows_fields(1)[OF f] show ?thesis
        by (auto simp: u s upcoming_past)
    qed (use r in simp_all)
  qed
next
  case (Invoke h c)
  show ?case
  proof (intro allI impI)
    fix vals c'
    assume r: "Invoke h c = Done (vals, None) c'" and w: "\<not> Written c'"
      and e: "recoveries (trace c') = recoveries (trace c)"
    let ?c0 = "c\<lparr>trace := trace c @ [Invoked (index c) h (Written c)]\<rparr>"
    have u0: "upcoming ?c0 = upcoming c" by (simp add: upcoming_def chain_def fun_eq_iff)
    show "(started (trace c') = started (trace c) @ [(index c, h)] \<and> index c' = index c) \<or>
     (started (trace c') = started (trace c) @ (index c, h) # upcoming c (index c + 1) \<and>
      int (length (handlers c)) < index c')"
    proof (cases h c rule: Invoke_cases)
      case (returned c1)
      with r w e Invoke(1)[OF returned(1)] show ?thesis by (auto simp: u0)
    next
      case (recovered p c1 ds c2)
      have "follows ?c0 c1" using frame(3)[of ?c0 "body h"] recovered(2) by simp
      from follows_recoveries[OF this]
      have "recoveries (trace c) \<le> recoveries (trace c1)" by simp
      moreover have "follows (c1\<lparr>trace := trace c1 @ [Recovered]\<rparr>) c2"
        using frame(3)[of "c1\<lparr>trace := trace c1 @ [Recovered]\<rparr>" ds] recovered(4) by simp
      from follows_recoveries[OF this]
      have "recoveries (trace c1) + 1 \<le> recoveries (trace c2)" by simp
      ultimately show ?thesis using r e recovered(5) by simp
    qed (use r in simp_all)
  qed
next
  case (CallNext ss c)
  show ?case
  proof (intro allI impI)
    fix c'
    assume r: "call (CallNext # ss) c = Done () c'" and w: "\<not> Written c'"
      and e: "recoveries (trace c') = recoveries (trace c)"
    then obtain c1 where n: "Next c = Done () c1" and s: "call ss c1 = Done () c'"
      by (cases "Next c") auto
    have f1: "follows c c1" using frame(4)[of c] n by simp
    have f2: "follows c1 c'" using frame(3)[of c1 ss] s by simp
    have w1: "\<not> Written c1" using follows_fields(5)[OF f2] w by blast
    from follows_recoveries[OF f1] follows_recoveries[OF f2] e
    have e1: "recoveries (trace c1) = recoveries (trace c)"
      and e2: "recoveries (trace c') = recoveries (trace c1)" by simp_all
    from CallNext(1) n w1 e1
    have a: "started (trace c1) = started (trace c) @ upcoming c (index c + 1)"
      and b: "int (length (handlers c)) < index c1" by simp_all
    from CallNext(2)[OF n] s w e2
    have "(started (trace c') = started (trace c1) \<and> index c' = index c1) \<or>
     (started (trace c') = started (trace c1) @ upcoming c1 (index c1 + 1) \<and>
      int (length (handlers c1)) < index c')" by simp
    with a b follows_fields(1)[OF f1]
    show "(started (trace c') = started (trace c) \<and> index c' = index c) \<or>
     (started (trace c') = started (trace c) @ upcoming c (index c + 1) \<and>
      int (length (handlers c)) < index c')"
      by (auto simp: upcoming_past)
  qed
next
  case (ResWrite b ss c)
  have "upcoming (c\<lparr>rw := rw_Write b (rw c)\<rparr>) = upcoming c"
    by (simp add: upcoming_def chain_def fun_eq_iff)
  with ResWrite show ?case by simp
next
  case (ResWriteHeader n ss c)
  have "upcoming (c\<lparr>rw := rw_WriteHeader n (rw c)\<rparr>) = upcoming c"
    by (simp add: upcoming_def chain_def fun_eq_iff)
  with ResWriteHeader show ?case by simp
next
  case (DoWork x ss c)
  have "upcoming (c\<lparr>trace := trace c @ [Worked x]\<rparr>) = upcoming c"
    by (simp add: upcoming_def chain_def fun_eq_iff)
  with DoWork show ?case by simp
next
  case (Next c)
  let ?c0 = "c\<lparr>index := index c + 1, trace := trace c @ [NextCalled (Written c)]\<rparr>"
  have "upcoming ?c0 = upcoming c" by (simp add: upcoming_def chain_def fun_eq_iff)
  with Next show ?case by (simp add: Next.simps)
qed simp_all

text \<open>A run that returns with the response unwritten has left the loop by its condition.\<close>

lemma unwritten_return_past_end:
  "\<forall>c'. run c = Done () c' \<longrightarrow> \<not> Written c' \<longrightarrow> int (length (handlers c)) < index c'"
proof (rule dispatch_induct(1)
    [where Q = "\<lambda>h c. True" and R = "\<lambda>ss c. True" and S = "\<lambda>c. True"], goal_cases)
  case (1 c)
  show ?case
  proof (intro allI impI)
    fix c'
    assume r: "run c = Done () c'" and w: "\<not> Written c'"
    show "int (length (handlers c)) < index c'"
    proof (cases c rule: run_cases)
      case past
      with r show ?thesis by simp
    next
      case (written h vals c1)
      with r w show ?thesis by simp
    next
      case (continue h vals c1)
      have "follows c c1" using frame(2)[of c h] continue(3) by simp
      with 1(2)[OF continue(1-4)] r w continue(5) show ?thesis
        by (simp add: follows_def)
    qed (use r in simp_all)
  qed
qed simp_all


lemma weave_no_next: "CallNext \<notin> set ss \<Longrightarrow> weave ss rest = weave ss [] @ rest"
  by (induct ss rest rule: weave.induct) simp_all

lemma started_weave [simp]: "started (weave ss rest) = started rest"
  by (induct ss rest rule: weave.induct) simp_all

lemma started_prescribed:
  "started (prescribed hs i) = zip [i..i + int (length hs) - 1] hs"
proof (induct hs arbitrary: i)
  case Nil
  then show ?case by simp
next
  case (Cons h hs)
  have "[i..i + int (length (h # hs)) - 1] = i # [i + 1..i + 1 + int (length hs) - 1]"
    by (simp add: upto_from)
  with Cons[of "i + 1"] show ?case by simp
qed

lemma chain_past: "int (length (handlers c)) < i \<Longrightarrow> drop (nat i) (chain c) = []"
  by (simp add: chain_def)

lemma chain_step:
  assumes "0 \<le> i" "i \<le> int (length (handlers c))"
  shows "drop (nat i) (chain c) = chain c ! nat i # drop (nat (i + 1)) (chain c)"
proof -
  from assms have "nat i < length (chain c)" by (simp add: chain_def)
  moreover from assms(1) have "nat (i + 1) = Suc (nat i)" by simp
  ultimately show ?thesis by (simp add: Cons_nth_drop_Suc)
qed

lemma quiet_kept:
  assumes "quiet c" "handlers c' = handlers c" "action c' = action c"
    "injector c' = injector c" "rw c' = rw c"
  shows "quiet c'" "chain c' = chain c"
  using assms by (simp_all add: quiet_def Written_def chain_def)

text \<open>
  In a quiet context every call returns, leaves the response alone, and adds to the log
  exactly what is prescribed.
\<close>

lemma quiet_log:
  "quiet c \<longrightarrow> 0 \<le> index c \<longrightarrow>
     (\<exists>c'. run c = Done () c' \<and> rw c' = rw c \<and> follows c c' \<and>
        int (length (handlers c)) < index c' \<and>
        trace c' = trace c @ prescribed (drop (nat (index c)) (chain c)) (index c))"
  "quiet c \<longrightarrow> 0 \<le> index c \<longrightarrow> first_missing (injector c) (params h) = None \<longrightarrow>
     list_all silent (body h) \<longrightarrow>
     (\<exists>c'. Invoke h c = Done (rets h, None) c' \<and> rw c' = rw c \<and> follows c c' \<and>
        (if CallNext \<in> set (body h)
         then int (length (handlers c)) < index c' \<and>
              trace c' = trace c @ Invoked (index c) h False #
                weave (body h) (prescribed (drop (nat (index c + 1)) (chain c)) (index c + 1))
         else index c' = index c \<and>
              trace c' = trace c @ Invoked (index c) h False # weave (body h) []))"
  "quiet c \<longrightarrow> 0 \<le> index c \<longrightarrow> list_all silent ss \<longrightarrow>
     (\<exists>c'. call ss c = Done () c' \<and> rw c' = rw c \<and> follows c c' \<and>
        (if CallNext \<in> set ss
         then int (length (handlers c)) < index c' \<and>
              trace c' = trace c @
                weave ss (prescribed (drop (nat (index c + 1)) (chain c)) (index c + 1))
         else index c' = index c \<and> trace c' = trace c @ weave ss []))"
  "quiet c \<longrightarrow> 0 \<le> index c \<longrightarrow>
     (\<exists>c'. Next c = Done () c' \<and> rw c' = rw c \<and> follows c c' \<and>
        int (length (handlers c)) < index c' \<and>
        trace c' = trace c @ NextCalled False #
          prescribed (drop (nat (index c + 1)) (chain c)) (index c + 1))"
proof (induct c and h c and ss c and c rule: dispatch_induct)
  case (run c)
  show ?case
  proof (intro impI)
    assume q: "quiet c" and z: "0 \<le> index c"
    let ?n = "int (length (handlers c))"
    show "\<exists>c'. run c = Done () c' \<and> rw c' = rw c \<and> follows c c' \<and> ?n < index c' \<and>
        trace c' = trace c @ prescribed (drop (nat (index c)) (chain c)) (index c)"
    proof (cases "index c \<le> ?n")
      case False
      then show ?thesis by (simp add: run.simps chain_past follows_refl)
    next
      case le: True
      from handler_in_chain[OF z le] obtain h where
        h: "handler c = Inr h" and m: "h \<in> set (chain c)" by blast
      from q m have hq: "first_missing (injector c) (params h) = None" "list_all silent (body h)"
        unfolding quiet_def list_all_iff by blast+
      have d: "drop (nat (index c)) (chain c) = h # drop (nat (index c + 1)) (chain c)"
        using chain_step[OF z le] handler_chain(3)[OF h] by simp
      let ?rest = "prescribed (drop (nat (index c + 1)) (chain c)) (index c + 1)"
      from run(1)[OF le h] q z hq obtain c1 where
        i: "Invoke h c = Done (rets h, None) c1" and r1: "rw c1 = rw c" and f: "follows c c1"
        and t1: "if CallNext \<in> set (body h)
           then ?n < index c1 \<and> trace c1 = trace c @ Invoked (index c) h False # weave (body h) ?rest
           else index c1 = index c \<and> trace c1 = trace c @ Invoked (index c) h False # weave (body h) []"
        by blast
      let ?c2 = "c1\<lparr>index := index c1 + 1\<rparr>"
      have nw: "\<not> Written ?c2" using q r1 by (simp add: quiet_def Written_def)
      have q2: "quiet ?c2" "chain ?c2 = chain c"
        using quiet_kept[OF q, of ?c2] f r1 by (simp_all add: follows_def)
      have z2: "0 \<le> index ?c2" using z f by (simp add: follows_def)
      from run(2)[OF le h i nw] q2 z2 obtain c' where
        r: "run ?c2 = Done () c'" and r2: "rw c' = rw ?c2" and f2: "follows ?c2 c'"
        and n2: "int (length (handlers ?c2)) < index c'"
        and t2: "trace c' = trace ?c2 @ prescribed (drop (nat (index ?c2)) (chain c)) (index ?c2)"
        by (auto cong: if_cong)
      have rc: "run c = Done () c'" using le h i nw r by (simp add: run.simps)
      have fc: "follows c c'" using f f2 by (auto simp: follows_def)
      have "trace c' = trace c @ prescribed (drop (nat (index c)) (chain c)) (index c)"
      proof (cases "CallNext \<in> set (body h)")
        case True
        with t1 have "?n < index ?c2"
          and "trace c1 = trace c @ Invoked (index c) h False # weave (body h) ?rest" by simp_all
        with t2 d show ?thesis using chain_past[of c "index ?c2"] by simp
      next
        case False
        with t1 have "index ?c2 = index c + 1"
          and "trace c1 = trace c @ Invoked (index c) h False # weave (body h) []" by simp_all
        with t2 d weave_no_next[OF False, of ?rest] show ?thesis by simp
      qed
      with rc r2 r1 fc n2 follows_fields(1)[OF f] show ?thesis by simp
    qed
  qed
next
  case (Invoke h c)
  show ?case
  proof (intro impI)
    assume q: "quiet c" and z: "0 \<le> index c"
      and m: "first_missing (injector c) (params h) = None" and s: "list_all silent (body h)"
    let ?c0 = "c\<lparr>trace := trace c @ [Invoked (index c) h (Written c)]\<rparr>"
    have q0: "quiet ?c0" "chain ?c0 = chain c" using quiet_kept[OF q, of ?c0] by simp_all
    have w: "\<not> Written c" using q by (simp add: quiet_def)
    from Invoke(1)[OF m] q0 z s obtain c' where
      c: "call (body h) ?c0 = Done () c'" "rw c' = rw c" "follows ?c0 c'"
      and t: "if CallNext \<in> set (body h)
         then int (length (handlers c)) < index c' \<and>
              trace c' = trace ?c0 @
                weave (body h) (prescribed (drop (nat (index c + 1)) (chain c)) (index c + 1))
         else index c' = index c \<and> trace c' = trace ?c0 @ weave (body h) []"
      by (auto cong: if_cong)
    have "Invoke h c = Done (rets h, None) c'" using m c(1) by (simp add: Invoke.simps)
    moreover have "follows c c'" using follows_log[OF c(3)] .
    ultimately show "\<exists>c'. Invoke h c = Done (rets h, None) c' \<and> rw c' = rw c \<and> follows c c' \<and>
        (if CallNext \<in> set (body h)
         then int (length (handlers c)) < index c' \<and>
              trace c' = trace c @ Invoked (index c) h False #
                weave (body h) (prescribed (drop (nat (index c + 1)) (chain c)) (index c + 1))
         else index c' = index c \<and>
              trace c' = trace c @ Invoked (index c) h False # weave (body h) [])"
      using c(2) t w by (intro exI[of _ c']) (simp split: if_splits)
  qed
next
  case (Nil c)
  show ?case by (simp add: follows_refl)
next
  case (CallNext ss c)
  show ?case
  proof (intro impI)
    assume q: "quiet c" and z: "0 \<le> index c" and s: "list_all silent (CallNext # ss)"
    let ?rest = "prescribed (drop (nat (index c + 1)) (chain c)) (index c + 1)"
    from CallNext(1) q z obtain c1 where n: "Next c = Done () c1" and r1: "rw c1 = rw c"
      and f: "follows c c1" and b: "int (length (handlers c)) < index c1"
      and t1: "trace c1 = trace c @ NextCalled False # ?rest"
      by blast
    have q1: "quiet c1" "chain c1 = chain c"
      using quiet_kept[OF q, of c1] f r1 by (simp_all add: follows_def)
    have z1: "0 \<le> index c1" using z f by (simp add: follows_def)
    from CallNext(2)[OF n] q1 z1 s obtain c' where
      c: "call ss c1 = Done () c'" "rw c' = rw c1" "follows c1 c'"
      and t: "if CallNext \<in> set ss
         then int (length (handlers c1)) < index c' \<and>
              trace c' = trace c1 @
                weave ss (prescribed (drop (nat (index c1 + 1)) (chain c)) (index c1 + 1))
         else index c' = index c1 \<and> trace c' = trace c1 @ weave ss []"
      by (auto cong: if_cong)
    have e: "drop (nat (index c1 + 1)) (chain c) = []"
      using chain_past[of c "index c1 + 1"] b by simp
    have "trace c' = trace c1 @ weave ss []" using t e by (simp split: if_splits)
    moreover have "int (length (handlers c)) < index c'"
      using b c(3) by (simp add: follows_def)
    moreover have "follows c c'" using f c(3) by (rule follows_trans)
    ultimately show "\<exists>c'. call (CallNext # ss) c = Done () c' \<and> rw c' = rw c \<and> follows c c' \<and>
        (if CallNext \<in> set (CallNext # ss)
         then int (length (handlers c)) < index c' \<and> trace c' = trace c @ weave (CallNext # ss) ?rest
         else index c' = index c \<and> trace c' = trace c @ weave (CallNext # ss) [])"
      using n c(1,2) r1 t1 by simp
  qed
next
  case (DoWork x ss c)
  show ?case
  proof (intro impI)
    assume q: "quiet c" and z: "0 \<le> index c" and s: "list_all silent (DoWork x # ss)"
    let ?c0 = "c\<lparr>trace := trace c @ [Worked x]\<rparr>"
    have q0: "quiet ?c0" "chain ?c0 = chain c" using quiet_kept[OF q, of ?c0] by simp_all
    from DoWork q0 z s obtain c' where
      c: "call ss ?c0 = Done () c'" "rw c' = rw c" "follows ?c0 c'"
      and t: "if CallNext \<in> set ss
         then int (length (handlers c)) < index c' \<and>
              trace c' = trace ?c0 @
                weave ss (prescribed (drop (nat (index c + 1)) (chain c)) (index c + 1))
         else index c' = index c \<and> trace c' = trace ?c0 @ weave ss []"
      by (auto cong: if_cong)
    have "follows c c'" using follows_log[OF c(3)] .
    with c(1,2) t show "\<exists>c'. call (DoWork x # ss) c = Done () c' \<and> rw c' = rw c \<and> follows c c' \<and>
        (if CallNext \<in> set (DoWork x # ss)
         then int (length (handlers c)) < index c' \<and>
              trace c' = trace c @ weave (DoWork x # ss)
                (prescribed (drop (nat (index c + 1)) (chain c)) (index c + 1))
         else index c' = index c \<and> trace c' = trace c @ weave (DoWork x # ss) [])"
      by (intro exI[of _ c']) (simp split: if_splits)
  qed
next
  case (Next c)
  show ?case
  proof (intro impI)
    assume q: "quiet c" and z: "0 \<le> index c"
    let ?c0 = "c\<lparr>index := index c + 1, trace := trace c @ [NextCalled (Written c)]\<rparr>"
    have q0: "quiet ?c0" "chain ?c0 = chain c" using quiet_kept[OF q, of ?c0] by simp_all
    have w: "\<not> Written c" using q by (simp add: quiet_def)
    from Next q0 z obtain c' where
      "run ?c0 = Done () c'" "rw c' = rw c" "follows ?c0 c'"
      "int (length (handlers c)) < index c'"
      "trace c' = trace ?c0 @ prescribed (drop (nat (index c + 1)) (chain c)) (index c + 1)"
      by (auto cong: if_cong)
    with w show "\<exists>c'. Next c = Done () c' \<and> rw c' = rw c \<and> follows c c' \<and>
        int (length (handlers c)) < index c' \<and>
        trace c' = trace c @ NextCalled False #
          prescribed (drop (nat (index c + 1)) (chain c)) (index c + 1)"
      by (intro exI[of _ c']) (auto simp: Next.simps follows_def)
  qed
qed simp_all


text \<open>Past the end of the chain a body calls no handler, whatever its steps.\<close>

lemma past_end_call:
  "int (length (handlers c)) < index c \<Longrightarrow>
     \<exists>t. trace (ctx_of (call ss c)) = trace c @ t \<and> started t = []"
proof (induct ss arbitrary: c)
  case Nil
  then show ?case by simp
next
  case (Cons s ss)
  show ?case
  proof (cases s)
    case CallNext
    let ?c1 = "c\<lparr>index := index c + 1, trace := trace c @ [NextCalled (Written c)]\<rparr>"
    from Cons(2) have n: "Next c = Done () ?c1" by (simp add: Next.simps run.simps)
    from Cons(2) have "int (length (handlers ?c1)) < index ?c1" by simp
    from Cons(1)[OF this] obtain t where
      "trace (ctx_of (call ss ?c1)) = trace ?c1 @ t" "started t = []" by blast
    then have "trace (ctx_of (call ss ?c1)) = trace c @ (NextCalled (Written c) # t) \<and>
        started (NextCalled (Written c) # t) = []"
      by simp
    with CallNext n show ?thesis by (simp del: started.simps; blast?)
  next
    case (ResWrite b)
    with Cons(1)[of "c\<lparr>rw := rw_Write b (rw c)\<rparr>"] Cons(2) show ?thesis by simp
  next
    case (ResWriteHeader n)
    with Cons(1)[of "c\<lparr>rw := rw_WriteHeader n (rw c)\<rparr>"] Cons(2) show ?thesis by simp
  next
    case (DoWork x)
    let ?c1 = "c\<lparr>trace := trace c @ [Worked x]\<rparr>"
    from Cons(1)[of ?c1] Cons(2) obtain t where
      "trace (ctx_of (call ss ?c1)) = trace ?c1 @ t" "started t = []" by auto
    then have "trace (ctx_of (call ss ?c1)) = trace c @ (Worked x # t) \<and>
        started (Worked x # t) = []"
      by simp
    with DoWork show ?thesis by (simp del: started.simps; blast?)
  next
    case (DoPanic msg)
    then show ?thesis by simp
  qed
qed

lemma follows_trace:
  assumes "follows c c'" "e \<notin> set (trace c')"
  shows "e \<notin> set (trace c)"
  using assms by (auto simp: follows_def)

text \<open>
  From an unwritten response on, a handler is called with the written signal true only
  after \<open>Next\<close> has been called with the signal true.
\<close>

lemma called_unwritten:
  "\<not> Written c \<longrightarrow> (\<forall>j h. Invoked j h True \<notin> set (trace c)) \<longrightarrow>
     NextCalled True \<notin> set (trace (ctx_of (run c))) \<longrightarrow>
     (\<forall>j h. Invoked j h True \<notin> set (trace (ctx_of (run c))))"
  "\<not> Written c \<longrightarrow> (\<forall>j h. Invoked j h True \<notin> set (trace c)) \<longrightarrow>
     NextCalled True \<notin> set (trace (ctx_of (Invoke h c))) \<longrightarrow>
     (\<forall>j h'. Invoked j h' True \<notin> set (trace (ctx_of (Invoke h c))))"
  "(\<forall>j h. Invoked j h True \<notin> set (trace c)) \<longrightarrow>
     NextCalled True \<notin> set (trace (ctx_of (call ss c))) \<longrightarrow>
     (\<forall>j h. Invoked j h True \<notin> set (trace (ctx_of (call ss c))))"
  "(\<forall>j h. Invoked j h True \<notin> set (trace c)) \<longrightarrow>
     NextCalled True \<notin> set (trace (ctx_of (Next c))) \<longrightarrow>
     (\<forall>j h. Invoked j h True \<notin> set (trace (ctx_of (Next c))))"
proof (induct c and h c and ss c and c rule: dispatch_induct)
  case (run c)
  show ?case
  proof (intro impI)
    assume w: "\<not> Written c" and g: "\<forall>j h. Invoked j h True \<notin> set (trace c)"
      and n: "NextCalled True \<notin> set (trace (ctx_of (run c)))"
    show "\<forall>j h. Invoked j h True \<notin> set (trace (ctx_of (run c)))"
    proof (cases c rule: run_cases)
      case past
      with g show ?thesis by simp
    next
      case (invalid p)
      with g show ?thesis by simp
    next
      case (panic h p c1)
      with run(1)[OF panic(1,2)] w g n show ?thesis by simp
    next
      case (error h vals t c1)
      with run(1)[OF error(1,2)] w g n show ?thesis by simp
    next
      case (written h vals c1)
      with run(1)[OF written(1,2)] w g n show ?thesis by simp
    next
      case (continue h vals c1)
      let ?c2 = "c1\<lparr>index := index c1 + 1\<rparr>"
      have "follows ?c2 (ctx_of (run ?c2))" by (rule frame(1))
      from follows_trace[OF this, of "NextCalled True"] n continue(5)
      have n1: "NextCalled True \<notin> set (trace c1)" by simp
      with run(1)[OF continue(1,2)] w g continue(3)
      have g1: "\<forall>j h. Invoked j h True \<notin> set (trace c1)" by simp
      with run(2)[OF continue(1-4)] continue(4,5) n show ?thesis by simp
    qed
  qed
next
  case (Invoke h c)
  show ?case
  proof (intro impI)
    assume w: "\<not> Written c" and g: "\<forall>j h. Invoked j h True \<notin> set (trace c)"
      and n: "NextCalled True \<notin> set (trace (ctx_of (Invoke h c)))"
    let ?c0 = "c\<lparr>trace := trace c @ [Invoked (index c) h (Written c)]\<rparr>"
    from w g have g0: "\<forall>j h. Invoked j h True \<notin> set (trace ?c0)" by simp
    show "\<forall>j h'. Invoked j h' True \<notin> set (trace (ctx_of (Invoke h c)))"
    proof (cases h c rule: Invoke_cases)
      case (missing t)
      with g show ?thesis by simp
    next
      case (returned c1)
      with Invoke(1)[OF returned(1)] g0 n show ?thesis by simp
    next
      case (panic p c1)
      with Invoke(1)[OF panic(1)] g0 n show ?thesis by simp
    next
      case (recovered p c1 ds c2)
      let ?c1 = "c1\<lparr>trace := trace c1 @ [Recovered]\<rparr>"
      have "follows ?c1 (ctx_of (call ds ?c1))" by (rule frame(3))
      from follows_trace[OF this, of "NextCalled True"] n recovered(4,5)
      have n1: "NextCalled True \<notin> set (trace c1)" by simp
      with Invoke(1)[OF recovered(1)] g0 recovered(2)
      have "\<forall>j h. Invoked j h True \<notin> set (trace ?c1)" by simp
      with Invoke(2)[OF recovered(1,2,3)] n recovered(4,5) show ?thesis by simp
    next
      case (failed p c1 ds q c2)
      let ?c1 = "c1\<lparr>trace := trace c1 @ [Recovered]\<rparr>"
      have "follows ?c1 (ctx_of (call ds ?c1))" by (rule frame(3))
      from follows_trace[OF this, of "NextCalled True"] n failed(4,5)
      have n1: "NextCalled True \<notin> set (trace c1)" by simp
      with Invoke(1)[OF failed(1)] g0 failed(2)
      have "\<forall>j h. Invoked j h True \<notin> set (trace ?c1)" by simp
      with Invoke(2)[OF failed(1,2,3)] n failed(4,5) show ?thesis by simp
    qed
  qed
next
  case (CallNext ss c)
  show ?case
  proof (intro impI)
    assume g: "\<forall>j h. Invoked j h True \<notin> set (trace c)"
      and n: "NextCalled True \<notin> set (trace (ctx_of (call (CallNext # ss) c)))"
    show "\<forall>j h. Invoked j h True \<notin> set (trace (ctx_of (call (CallNext # ss) c)))"
    proof (cases "Next c")
      case (Panic p c1)
      with CallNext(1) g n show ?thesis by simp
    next
      case (Done u c1)
      have "follows c1 (ctx_of (call ss c1))" by (rule frame(3))
      from follows_trace[OF this, of "NextCalled True"] n Done
      have "NextCalled True \<notin> set (trace c1)" by simp
      with CallNext(1) g Done have "\<forall>j h. Invoked j h True \<notin> set (trace c1)" by simp
      with CallNext(2)[of c1] Done n show ?thesis by simp
    qed
  qed
next
  case (Next c)
  show ?case
  proof (intro impI)
    assume g: "\<forall>j h. Invoked j h True \<notin> set (trace c)"
      and n: "NextCalled True \<notin> set (trace (ctx_of (Next c)))"
    let ?c0 = "c\<lparr>index := index c + 1, trace := trace c @ [NextCalled (Written c)]\<rparr>"
    have "follows ?c0 (ctx_of (run ?c0))" by (rule frame(1))
    from follows_trace[OF this, of "NextCalled True"] n
    have "NextCalled True \<notin> set (trace ?c0)"
      by (simp add: Next.simps)
    then have "\<not> Written c" by auto
    with Next g n show "\<forall>j h. Invoked j h True \<notin> set (trace (ctx_of (Next c)))"
      by (simp add: Next.simps)
  qed
qed simp_all


lemma ascending_Nil [simp]: "ascending lo hi []"
  by (simp add: ascending_def)

lemma ascending_skip [simp]:
  "ascending lo hi (NextCalled w # t) = ascending lo hi t"
  "ascending lo hi (Worked x # t) = ascending lo hi t"
  "ascending lo hi (Raised p # t) = ascending lo hi t"
  "ascending lo hi (Recovered # t) = ascending lo hi t"
  by (simp_all add: ascending_def)

lemma ascending_start:
  "ascending (i + 1) hi t \<Longrightarrow> lo \<le> i \<Longrightarrow> i \<le> hi \<Longrightarrow> ascending lo hi (Invoked i h w # t)"
  by (auto simp: ascending_def list_all_iff)

lemma ascending_append:
  "ascending lo hi t \<Longrightarrow> ascending lo' hi' t' \<Longrightarrow> hi < lo' \<Longrightarrow> lo \<le> lo' \<Longrightarrow> hi \<le> hi'
     \<Longrightarrow> ascending lo hi' (t @ t')"
  by (fastforce simp: ascending_def list_all_iff sorted_wrt_append)

lemma ascending_mono:
  "ascending lo hi t \<Longrightarrow> lo' \<le> lo \<Longrightarrow> hi \<le> hi' \<Longrightarrow> ascending lo' hi' t"
  by (fastforce simp: ascending_def list_all_iff)

lemma ascending_end [simp]:
  "ascending lo hi (t @ [Raised p]) = ascending lo hi t"
  "ascending lo hi (t @ [Recovered]) = ascending lo hi t"
  by (simp_all add: ascending_def)

lemma in_order_refl: "in_order c lo (Done x c)"
  by (simp add: in_order_def)

text \<open>
  From a cursor that is not negative, the handlers are called at cursor values that go
  strictly up within the chain, and \<open>context.handler\<close> does not panic.
\<close>

lemma cursor_order:
  "0 \<le> index c \<longrightarrow> in_order c (index c) (run c)"
  "0 \<le> index c \<longrightarrow> index c \<le> int (length (handlers c)) \<longrightarrow> in_order c (index c) (Invoke h c)"
  "0 \<le> index c \<longrightarrow> in_order c (index c + 1) (call ss c)"
  "0 \<le> index c \<longrightarrow> in_order c (index c + 1) (Next c)"
proof (induct c and h c and ss c and c rule: dispatch_induct)
  case (run c)
  show ?case
  proof
    assume z: "0 \<le> index c"
    show "in_order c (index c) (run c)"
    proof (cases c rule: run_cases)
      case past
      then show ?thesis by (simp add: in_order_refl)
    next
      case (invalid p)
      with handler_in_chain[OF z invalid(1)] show ?thesis by simp
    next
      case (panic h p c1)
      with run(1)[OF panic(1,2)] z show ?thesis by (simp add: in_order_def)
    next
      case (error h vals t c1)
      with run(1)[OF error(1,2)] z show ?thesis by (auto simp: in_order_def)
    next
      case (written h vals c1)
      from run(1)[OF written(1,2)] z written(1,3) obtain t where
        "trace c1 = trace c @ t"
        "ascending (index c) (min (int (length (handlers c))) (index c1)) t"
        by (auto simp: in_order_def)
      with written(5) ascending_mono[of "index c" "min (int (length (handlers c))) (index c1)" t
          "index c" "min (int (length (handlers c))) (index c1 + 1)"]
      show ?thesis by (simp add: in_order_def)
    next
      case (continue h vals c1)
      let ?c2 = "c1\<lparr>index := index c1 + 1\<rparr>"
      let ?n = "int (length (handlers c))"
      have f: "follows c c1" using frame(2)[of c h] continue(3) by simp
      have f2: "follows ?c2 (ctx_of (run ?c2))" by (rule frame(1))
      from run(1)[OF continue(1,2)] z continue(1,3) obtain t where
        t: "trace c1 = trace c @ t" "ascending (index c) (min ?n (index c1)) t"
        by (auto simp: in_order_def)
      from run(2)[OF continue(1-4)] z follows_fields(1,4)[OF f] obtain t' where
        t': "trace (ctx_of (run ?c2)) = trace c1 @ t'"
          "ascending (index c1 + 1) (min ?n (index (ctx_of (run ?c2)))) t'"
        and ok: "fault (run ?c2) \<noteq> Some InvalidIndex" "fault (run ?c2) \<noteq> Some IndexOutOfRange"
        by (auto simp: in_order_def)
      from follows_fields(4)[OF f2] follows_fields(4)[OF f]
      have "ascending (index c) (min ?n (index (ctx_of (run ?c2)))) (t @ t')"
        by (intro ascending_append[OF t(2) t'(2)]) simp_all
      with t(1) t'(1) ok continue(5) show ?thesis by (simp add: in_order_def)
    qed
  qed
next
  case (Invoke h c)
  show ?case
  proof (intro impI)
    assume z: "0 \<le> index c" and le: "index c \<le> int (length (handlers c))"
    let ?c0 = "c\<lparr>trace := trace c @ [Invoked (index c) h (Written c)]\<rparr>"
    let ?n = "int (length (handlers c))"
    show "in_order c (index c) (Invoke h c)"
    proof (cases "first_missing (injector c) (params h)")
      case (Some t)
      then show ?thesis by (simp add: Invoke.simps in_order_refl)
    next
      case None
      let ?r = "call (body h) ?c0"
      have f: "follows ?c0 (ctx_of ?r)" by (rule frame(3))
      from Invoke(1)[OF None] z obtain t where
        t: "trace (ctx_of ?r) = trace ?c0 @ t"
          "ascending (index c + 1) (min ?n (index (ctx_of ?r))) t"
        and ok: "fault ?r \<noteq> Some InvalidIndex" "fault ?r \<noteq> Some IndexOutOfRange"
        by (auto simp: in_order_def)
      from follows_fields(4)[OF f] le
      have a: "ascending (index c) (min ?n (index (ctx_of ?r)))
              (Invoked (index c) h (Written c) # t)"
        by (intro ascending_start[OF t(2)]) simp_all
      show ?thesis
      proof (cases ?r)
        case (Done u c1)
        with a t(1) None show ?thesis by (simp add: Invoke.simps in_order_def)
      next
        case (Panic p c1)
        show ?thesis
        proof (cases "rescue h")
          case no: None
          with a t(1) ok None Panic show ?thesis by (simp add: Invoke.simps in_order_def)
        next
          case yes: (Some ds)
          let ?c1 = "c1\<lparr>trace := trace c1 @ [Recovered]\<rparr>"
          let ?r2 = "call ds ?c1"
          have f1: "follows ?c0 c1" using f Panic by simp
          have f2: "follows ?c1 (ctx_of ?r2)" by (rule frame(3))
          from Invoke(2)[OF None Panic yes] z follows_fields(1,4)[OF f1] obtain t' where
            t': "trace (ctx_of ?r2) = trace ?c1 @ t'"
              "ascending (index c1 + 1) (min ?n (index (ctx_of ?r2))) t'"
            and ok2: "fault ?r2 \<noteq> Some InvalidIndex" "fault ?r2 \<noteq> Some IndexOutOfRange"
            by (auto simp: in_order_def)
          from a Panic have "ascending (index c) (min ?n (index c1))
              ((Invoked (index c) h (Written c) # t) @ [Recovered])"
            by (simp add: ascending_def)
          from ascending_append[OF this t'(2)] follows_fields(4)[OF f2] follows_fields(4)[OF f1]
          have "ascending (index c) (min ?n (index (ctx_of ?r2)))
              (((Invoked (index c) h (Written c) # t) @ [Recovered]) @ t')" by simp
          moreover have "trace (ctx_of ?r2) =
              trace c @ (((Invoked (index c) h (Written c) # t) @ [Recovered]) @ t')"
            using t(1) t'(1) Panic by simp
          ultimately have "in_order c (index c) ?r2"
            using ok2 unfolding in_order_def by blast
          with None Panic yes show ?thesis
            by (cases ?r2) (simp_all add: Invoke.simps in_order_def)
        qed
      qed
    qed
  qed
next
  case (Nil c)
  show ?case by (simp add: in_order_refl)
next
  case (CallNext ss c)
  show ?case
  proof
    assume z: "0 \<le> index c"
    let ?n = "int (length (handlers c))"
    show "in_order c (index c + 1) (call (CallNext # ss) c)"
    proof (cases "Next c")
      case (Panic p c1)
      with CallNext(1) z show ?thesis by (simp add: in_order_def)
    next
      case (Done u c1)
      have f: "follows c c1" using frame(4)[of c] Done by simp
      have f2: "follows c1 (ctx_of (call ss c1))" by (rule frame(3))
      from CallNext(1) z Done obtain t where
        t: "trace c1 = trace c @ t" "ascending (index c + 1) (min ?n (index c1)) t"
        by (auto simp: in_order_def)
      from CallNext(2)[of c1] Done z follows_fields(1,4)[OF f] obtain t' where
        t': "trace (ctx_of (call ss c1)) = trace c1 @ t'"
          "ascending (index c1 + 1) (min ?n (index (ctx_of (call ss c1)))) t'"
        and ok: "fault (call ss c1) \<noteq> Some InvalidIndex" "fault (call ss c1) \<noteq> Some IndexOutOfRange"
        by (auto simp: in_order_def)
      from follows_fields(4)[OF f2] follows_fields(4)[OF f]
      have "ascending (index c + 1) (min ?n (index (ctx_of (call ss c1)))) (t @ t')"
        by (intro ascending_append[OF t(2) t'(2)]) simp_all
      with t(1) t'(1) ok Done show ?thesis by (simp add: in_order_def)
    qed
  qed
next
  case (DoWork x ss c)
  then show ?case by (auto simp: in_order_def)
next
  case (DoPanic msg ss c)
  show ?case by (simp add: in_order_def)
next
  case (Next c)
  then show ?case by (auto simp: in_order_def Next.simps)
qed (simp_all add: in_order_def)

lemma forget_fields [simp]:
  "params (forget h) = params h" "body (forget h) = body h" "rescue (forget h) = rescue h"
  "rets (forget h) = []"
  by (simp_all add: forget_def)

lemma forget_rets_fields [simp]:
  "index (forget_rets c) = index c"
  "trace (forget_rets c) = map forget_event (trace c)"
  "rw (forget_rets c) = rw c"
  "injector (forget_rets c) = injector c"
  "length (handlers (forget_rets c)) = length (handlers c)"
  "Written (forget_rets c) = Written c"
  by (simp_all add: forget_rets_def Written_def)

lemma forget_rets_updates [simp]:
  "forget_rets (c\<lparr>index := i\<rparr>) = (forget_rets c)\<lparr>index := i\<rparr>"
  "forget_rets (c\<lparr>trace := t\<rparr>) = (forget_rets c)\<lparr>trace := map forget_event t\<rparr>"
  "forget_rets (c\<lparr>rw := w\<rparr>) = (forget_rets c)\<lparr>rw := w\<rparr>"
  by (simp_all add: forget_rets_def)

lemma handler_forget_rets:
  "handler (forget_rets c) = (case handler c of Inl p \<Rightarrow> Inl p | Inr h \<Rightarrow> Inr (forget h))"
  by (simp add: handler_def forget_rets_def)

lemma cursors_forget [simp]: "cursors (map forget_event t) = cursors t"
  by (induct t rule: cursors.induct) simp_all

text \<open>What the handlers return has no part in the dispatch.\<close>

lemma rets_ignored:
  "run (forget_rets c) = on_ctx forget_rets (run c)"
  "Invoke (forget h) (forget_rets c) =
     (case Invoke h c of
        Done (vals, err) c1 \<Rightarrow> Done ([], err) (forget_rets c1)
      | Panic p c1 \<Rightarrow> Panic p (forget_rets c1))"
  "call ss (forget_rets c) = on_ctx forget_rets (call ss c)"
  "Next (forget_rets c) = on_ctx forget_rets (Next c)"
proof (induct c and h c and ss c and c rule: dispatch_induct)
  case (run c)
  show ?case
  proof (cases c rule: run_cases)
    case past
    then show ?thesis by (simp add: run.simps[of "forget_rets c"])
  next
    case (invalid p)
    then show ?thesis by (simp add: run.simps[of "forget_rets c"] handler_forget_rets)
  next
    case (panic h p c1)
    with run(1)[OF panic(1,2)] show ?thesis
      by (simp add: run.simps[of "forget_rets c"] handler_forget_rets)
  next
    case (error h vals t c1)
    with run(1)[OF error(1,2)] show ?thesis
      by (simp add: run.simps[of "forget_rets c"] handler_forget_rets)
  next
    case (written h vals c1)
    with run(1)[OF written(1,2)] show ?thesis
      by (simp add: run.simps[of "forget_rets c"] handler_forget_rets)
  next
    case (continue h vals c1)
    with run(1)[OF continue(1,2)] run(2)[OF continue(1-4)] show ?thesis
      by (simp add: run.simps[of "forget_rets c"] handler_forget_rets)
  qed
next
  case (Invoke h c)
  show ?case
  proof (cases h c rule: Invoke_cases)
    case (missing t)
    then show ?thesis by (simp add: Invoke.simps[of "forget h"])
  next
    case (returned c1)
    with Invoke(1) show ?thesis by (simp add: Invoke.simps[of "forget h"])
  next
    case (panic p c1)
    with Invoke(1) show ?thesis by (simp add: Invoke.simps[of "forget h"])
  next
    case (recovered p c1 ds c2)
    with Invoke(1)[OF recovered(1)] Invoke(2)[OF recovered(1,2,3)] show ?thesis
      by (simp add: Invoke.simps[of "forget h"])
  next
    case (failed p c1 ds q c2)
    with Invoke(1)[OF failed(1)] Invoke(2)[OF failed(1,2,3)] show ?thesis
      by (simp add: Invoke.simps[of "forget h"])
  qed
next
  case (CallNext ss c)
  then show ?case by (cases "Next c") simp_all
next
  case (Next c)
  then show ?case by (simp add: Next.simps)
qed simp_all


lemma handled_append: "handled a \<Longrightarrow> handled (a @ b) = handled b"
  by (induct a rule: handled.induct) simp_all

lemma handled_recovered: "handled a \<Longrightarrow> handled (a @ Raised p # Recovered # b) = handled b"
  by (simp add: handled_append)

lemma settles_Panic_append:
  "handled a \<Longrightarrow> settles b (Panic p c) \<Longrightarrow> settles (a @ b) (Panic p c')"
proof -
  assume a: "handled a" and "settles b (Panic p c)"
  then obtain t0 where "b = t0 @ [Raised p]" "handled t0" by auto
  with a have "a @ b = (a @ t0) @ [Raised p]" "handled (a @ t0)"
    by (simp_all add: handled_append)
  then show ?thesis unfolding settles.simps by blast
qed

lemma settles_append: "handled a \<Longrightarrow> settles b r \<Longrightarrow> settles (a @ b) r"
  by (cases r) (simp_all add: handled_append settles_Panic_append del: settles.simps(2))

lemma settles_raise: "handled a \<Longrightarrow> settles (a @ [Raised p]) (Panic p c)"
  by simp

lemma handled_no_recovery:
  "handled t \<Longrightarrow> Recovered \<notin> set t \<Longrightarrow> Raised p \<notin> set t"
  by (induct t rule: handled.induct) auto

lemma recoveries_none: "recoveries t = 0 \<longleftrightarrow> Recovered \<notin> set t"
  by (auto simp: recoveries_def filter_empty_conv)

lemma settle_intro:
  assumes "trace (ctx_of r) = trace c @ t" "settles t r"
  shows "\<exists>t. trace (ctx_of r) = trace c @ t \<and> settles t r"
  using assms by blast

text \<open>
  No call of the dispatch catches a panic or goes on after one: what it adds to the log
  settles with its outcome.
\<close>

lemma panics_settle:
  "\<exists>t. trace (ctx_of (run c)) = trace c @ t \<and> settles t (run c)"
  "\<exists>t. trace (ctx_of (Invoke h c)) = trace c @ t \<and> settles t (Invoke h c)"
  "\<exists>t. trace (ctx_of (call ss c)) = trace c @ t \<and> settles t (call ss c)"
  "\<exists>t. trace (ctx_of (Next c)) = trace c @ t \<and> settles t (Next c)"
proof (induct c and h c and ss c and c rule: dispatch_induct)
  case (run c)
  show ?case
  proof (cases c rule: run_cases)
    case past
    then show ?thesis by simp
  next
    case (invalid p)
    then show ?thesis by simp
  next
    case (panic h p c1)
    from run(1)[OF panic(1,2)] panic(3) obtain t1 where
      t1: "trace c1 = trace c @ t1" "settles t1 (Panic p c1 :: unit outcome)" by auto
    show ?thesis
    proof (rule settle_intro)
      show "trace (ctx_of (run c)) = trace c @ t1" using panic(4) t1(1) by simp
      show "settles t1 (run c)" using panic(4) t1(2) by simp
    qed
  next
    case (error h vals t c1)
    from run(1)[OF error(1,2)] error(3) obtain t1 where
      t1: "trace c1 = trace c @ t1" "handled t1" by auto
    show ?thesis
    proof (rule settle_intro)
      show "trace (ctx_of (run c)) = trace c @ (t1 @ [Raised (InvokeError t)])"
        using error(4) t1(1) by simp
      show "settles (t1 @ [Raised (InvokeError t)]) (run c)"
        using error(4) settles_raise[OF t1(2)] by (simp del: settles.simps)
    qed
  next
    case (written h vals c1)
    from run(1)[OF written(1,2)] written(3) obtain t1 where
      t1: "trace c1 = trace c @ t1" "handled t1" by auto
    show ?thesis
    proof (rule settle_intro)
      show "trace (ctx_of (run c)) = trace c @ t1" using written(5) t1(1) by simp
      show "settles t1 (run c)" using written(5) t1(2) by simp
    qed
  next
    case (continue h vals c1)
    let ?c2 = "c1\<lparr>index := index c1 + 1\<rparr>"
    from run(1)[OF continue(1,2)] continue(3) obtain t1 where
      t1: "trace c1 = trace c @ t1" "handled t1" by auto
    from run(2)[OF continue(1-4)] obtain t2 where
      t2: "trace (ctx_of (run ?c2)) = trace ?c2 @ t2" "settles t2 (run ?c2)" by blast
    show ?thesis
    proof (rule settle_intro)
      show "trace (ctx_of (run c)) = trace c @ (t1 @ t2)" using continue(5) t1(1) t2(1) by simp
      show "settles (t1 @ t2) (run c)"
        using continue(5) settles_append[OF t1(2) t2(2)] by (simp del: settles.simps)
    qed
  qed
next
  case (Invoke h c)
  let ?e = "Invoked (index c) h (Written c)"
  let ?c0 = "c\<lparr>trace := trace c @ [?e]\<rparr>"
  have he: "handled [?e]" by simp
  show ?case
  proof (cases h c rule: Invoke_cases)
    case (missing t)
    then show ?thesis by simp
  next
    case (returned c1)
    from Invoke(1)[OF returned(1)] returned(2) obtain t1 where
      t1: "trace c1 = trace ?c0 @ t1" "handled t1" by auto
    show ?thesis
    proof (rule settle_intro)
      show "trace (ctx_of (Invoke h c)) = trace c @ ([?e] @ t1)" using returned(3) t1(1) by simp
      show "settles ([?e] @ t1) (Invoke h c)" using returned(3) t1(2) by simp
    qed
  next
    case (panic p c1)
    from Invoke(1)[OF panic(1)] panic(2) obtain t1 where
      t1: "trace c1 = trace ?c0 @ t1" "settles t1 (Panic p c1 :: unit outcome)" by auto
    show ?thesis
    proof (rule settle_intro)
      show "trace (ctx_of (Invoke h c)) = trace c @ ([?e] @ t1)" using panic(4) t1(1) by simp
      show "settles ([?e] @ t1) (Invoke h c)"
        using panic(4) settles_Panic_append[OF he t1(2)] by (simp del: settles.simps)
    qed
  next
    case (recovered p c1 ds c2)
    let ?c1 = "c1\<lparr>trace := trace c1 @ [Recovered]\<rparr>"
    from Invoke(1)[OF recovered(1)] recovered(2) obtain t0 where
      t0: "trace c1 = trace ?c0 @ t0 @ [Raised p]" "handled t0" by auto
    from Invoke(2)[OF recovered(1,2,3)] recovered(4) obtain t2 where
      t2: "trace c2 = trace ?c1 @ t2" "handled t2" by auto
    show ?thesis
    proof (rule settle_intro)
      show "trace (ctx_of (Invoke h c)) = trace c @ (([?e] @ t0) @ Raised p # Recovered # t2)"
        using recovered(5) t0(1) t2(1) by simp
      have "handled (([?e] @ t0) @ Raised p # Recovered # t2)"
        using t0(2) t2(2) by (subst handled_recovered) simp_all
      then show "settles (([?e] @ t0) @ Raised p # Recovered # t2) (Invoke h c)"
        using recovered(5) by (simp del: append.simps append_assoc)
    qed
  next
    case (failed p c1 ds q c2)
    let ?c1 = "c1\<lparr>trace := trace c1 @ [Recovered]\<rparr>"
    from Invoke(1)[OF failed(1)] failed(2) obtain t0 where
      t0: "trace c1 = trace ?c0 @ t0 @ [Raised p]" "handled t0" by auto
    from Invoke(2)[OF failed(1,2,3)] failed(4) obtain t2 where
      t2: "trace c2 = trace ?c1 @ t2 @ [Raised q]" "handled t2" by auto
    show ?thesis
    proof (rule settle_intro)
      show "trace (ctx_of (Invoke h c)) =
          trace c @ ((([?e] @ t0) @ Raised p # Recovered # t2) @ [Raised q])"
        using failed(5) t0(1) t2(1) by simp
      have "handled (([?e] @ t0) @ Raised p # Recovered # t2)"
        using t0(2) t2(2) by (subst handled_recovered) simp_all
      from settles_raise[OF this, of q c2]
      show "settles ((([?e] @ t0) @ Raised p # Recovered # t2) @ [Raised q]) (Invoke h c)"
        using failed(5) by (simp del: append.simps append_assoc settles.simps)
    qed
  qed
next
  case (Nil c)
  show ?case by simp
next
  case (CallNext ss c)
  show ?case
  proof (cases "Next c")
    case (Panic p c1)
    with CallNext(1) show ?thesis by simp
  next
    case (Done u c1)
    from CallNext(1) Done obtain t1 where t1: "trace c1 = trace c @ t1" "handled t1" by auto
    from CallNext(2)[of c1] Done obtain t2 where
      t2: "trace (ctx_of (call ss c1)) = trace c1 @ t2" "settles t2 (call ss c1)" by auto
    show ?thesis
    proof (rule settle_intro)
      show "trace (ctx_of (call (CallNext # ss) c)) = trace c @ (t1 @ t2)"
        using Done t1(1) t2(1) by simp
      show "settles (t1 @ t2) (call (CallNext # ss) c)"
        using Done settles_append[OF t1(2) t2(2)] by (simp del: settles.simps)
    qed
  qed
next
  case (ResWrite b ss c)
  then show ?case by simp
next
  case (ResWriteHeader n ss c)
  then show ?case by simp
next
  case (DoWork x ss c)
  let ?c0 = "c\<lparr>trace := trace c @ [Worked x]\<rparr>"
  from DoWork obtain t where t: "trace (ctx_of (call ss ?c0)) = trace ?c0 @ t"
    "settles t (call ss ?c0)" by blast
  have h: "handled [Worked x]" by simp
  show ?case
  proof (rule settle_intro)
    show "trace (ctx_of (call (DoWork x # ss) c)) = trace c @ ([Worked x] @ t)"
      using t(1) by simp
    show "settles ([Worked x] @ t) (call (DoWork x # ss) c)"
      using settles_append[OF h t(2)] by (simp del: settles.simps)
  qed
next
  case (DoPanic msg ss c)
  show ?case by simp
next
  case (Next c)
  let ?c0 = "c\<lparr>index := index c + 1, trace := trace c @ [NextCalled (Written c)]\<rparr>"
  from Next obtain t where t: "trace (ctx_of (run ?c0)) = trace ?c0 @ t"
    "settles t (run ?c0)" by blast
  have h: "handled [NextCalled (Written c)]" by simp
  show ?case
  proof (rule settle_intro)
    show "trace (ctx_of (Next c)) = trace c @ ([NextCalled (Written c)] @ t)"
      using t(1) by (simp add: Next.simps)
    show "settles ([NextCalled (Written c)] @ t) (Next c)"
      using settles_append[OF h t(2)] by (simp add: Next.simps del: settles.simps)
  qed
qed

text \<open>Where no handler of the chain recovers, nothing is recovered.\<close>

lemma no_rescue_no_recovery:
  "no_rescue c \<longrightarrow> recoveries (trace (ctx_of (run c))) = recoveries (trace c)"
  "no_rescue c \<longrightarrow> rescue h = None \<longrightarrow>
     recoveries (trace (ctx_of (Invoke h c))) = recoveries (trace c)"
  "no_rescue c \<longrightarrow> recoveries (trace (ctx_of (call ss c))) = recoveries (trace c)"
  "no_rescue c \<longrightarrow> recoveries (trace (ctx_of (Next c))) = recoveries (trace c)"
proof (induct c and h c and ss c and c rule: dispatch_induct)
  case (run c)
  show ?case
  proof
    assume nr: "no_rescue c"
    show "recoveries (trace (ctx_of (run c))) = recoveries (trace c)"
    proof (cases c rule: run_cases)
      case past
      then show ?thesis by simp
    next
      case (invalid p)
      then show ?thesis by simp
    next
      case (panic h p c1)
      from handler_chain[OF panic(2)] handler_in_chain[of c] panic(2) nr
      have "rescue h = None" by (auto simp: no_rescue_def list_all_iff)
      with run(1)[OF panic(1,2)] nr panic show ?thesis by simp
    next
      case (error h vals t c1)
      from handler_chain[OF error(2)] handler_in_chain[of c] error(2) nr
      have "rescue h = None" by (auto simp: no_rescue_def list_all_iff)
      with run(1)[OF error(1,2)] nr error show ?thesis by simp
    next
      case (written h vals c1)
      from handler_chain[OF written(2)] handler_in_chain[of c] written(2) nr
      have "rescue h = None" by (auto simp: no_rescue_def list_all_iff)
      with run(1)[OF written(1,2)] nr written show ?thesis by simp
    next
      case (continue h vals c1)
      let ?c2 = "c1\<lparr>index := index c1 + 1\<rparr>"
      from handler_chain[OF continue(2)] handler_in_chain[of c] continue(2) nr
      have "rescue h = None" by (auto simp: no_rescue_def list_all_iff)
      with run(1)[OF continue(1,2)] nr continue(3)
      have e: "recoveries (trace c1) = recoveries (trace c)" by simp
      have "follows c c1" using frame(2)[of c h] continue(3) by simp
      with nr have "no_rescue ?c2" by (simp add: no_rescue_def chain_def follows_def)
      with run(2)[OF continue(1-4)] e continue(5) show ?thesis by simp
    qed
  qed
next
  case (Invoke h c)
  let ?c0 = "c\<lparr>trace := trace c @ [Invoked (index c) h (Written c)]\<rparr>"
  show ?case
  proof (intro impI)
    assume nr: "no_rescue c" and rn: "rescue h = None"
    then have "no_rescue ?c0" by (simp add: no_rescue_def chain_def)
    with Invoke(1) rn show "recoveries (trace (ctx_of (Invoke h c))) = recoveries (trace c)"
      by (cases h c rule: Invoke_cases) simp_all
  qed
next
  case (CallNext ss c)
  show ?case
  proof
    assume nr: "no_rescue c"
    show "recoveries (trace (ctx_of (call (CallNext # ss) c))) = recoveries (trace c)"
    proof (cases "Next c")
      case (Panic p c1)
      with CallNext(1) nr show ?thesis by simp
    next
      case (Done u c1)
      have "follows c c1" using frame(4)[of c] Done by simp
      with nr have "no_rescue c1" by (simp add: no_rescue_def chain_def follows_def)
      with CallNext(1) CallNext(2)[of c1] nr Done show ?thesis by simp
    qed
  qed
next
  case (ResWrite b ss c)
  then show ?case by (simp add: no_rescue_def chain_def)
next
  case (ResWriteHeader n ss c)
  then show ?case by (simp add: no_rescue_def chain_def)
next
  case (DoWork x ss c)
  then show ?case by (simp add: no_rescue_def chain_def)
next
  case (Next c)
  then show ?case by (simp add: Next.simps no_rescue_def chain_def)
qed simp_all



section \<open>Properties of the default return handler\<close>

lemmas eval_defs =
  createContext_def New_def Use_def Handlers_def Action_def empty_func_def Map_def
  inject_New_def NewResponseWriter_def rw_Write_def rw_WriteHeader_def rw_Written_def
  Written_def handler_def ServeHTTP_def canDeref_def isByteSlice_def

text \<open>
  C6 (the code differs). With no values at all, \<open>responseVal\<close> stays the zero Value: it
  is no byte slice, so the handler writes what \<open>String\<close> gives for it, the fifteen bytes
  of \<open><invalid Value>\<close>, as the body. It writes no status.
\<close>

theorem zero_values_write_invalid_text:
  "defaultReturnHandler (createContext New [] ''GET /'') [] =
     Done () ((createContext New [] ''GET /'')
       \<lparr>rw := \<lparr>inner = [Write ''<invalid Value>''], flushed = True\<rparr>\<rparr>)"
  by (simp add: defaultReturnHandler_def eval_defs)

text \<open>
  C7. In a context whose container gives the response writer, a handler that returned
  only a byte slice has exactly those bytes written as the body and nothing else, and a
  handler that returned an int and a string (404 and "not found", say) has the status
  written first and the string as the body after it.
\<close>

theorem bytes_verbatim_and_status_then_body:
  assumes "Get (injector ctx) TResponseWriter = Some SResponseWriter"
  shows "defaultReturnHandler ctx [VBytes b] = Done () (ctx\<lparr>rw := rw_Write b (rw ctx)\<rparr>) \<and>
         inner (rw_Write b (rw ctx)) = inner (rw ctx) @ [Write b] \<and>
         defaultReturnHandler ctx [VInt n, VString s] =
           Done () (ctx\<lparr>rw := rw_Write s (rw_WriteHeader n (rw ctx))\<rparr>) \<and>
         inner (rw_Write s (rw_WriteHeader n (rw ctx))) =
           inner (rw ctx) @ [WriteHeader n, Write s]"
  using assms
  by (simp add: defaultReturnHandler_def canDeref_def isByteSlice_def rw_Write_def
      rw_WriteHeader_def)

theorem bytes_verbatim_and_status_then_body_witness:
  "Get (injector (createContext New [] ''GET /'')) TResponseWriter = Some SResponseWriter \<and>
   inner (rw (ctx_of (defaultReturnHandler (createContext New [] ''GET /'') [VBytes ''abc''])))
     = [Write ''abc''] \<and>
   inner (rw (ctx_of (defaultReturnHandler (createContext New [] ''GET /'')
       [VInt 404, VString ''not found''])))
     = [WriteHeader 404, Write ''not found'']"
proof -
  have g: "Get (injector (createContext New [] ''GET /'')) TResponseWriter = Some SResponseWriter"
    by (simp add: eval_defs)
  show ?thesis
    using g bytes_verbatim_and_status_then_body [OF g, of "''abc''" 404 "''not found''"]
    by (simp add: eval_defs)
qed

text \<open>
  C10. When there are two or more values and the kind of the first is not \<open>Int\<close>, the
  handler does what it does for the first value alone: one write of that value (what it
  holds if it is an interface or pointer; its bytes if that is a byte slice, else its
  \<open>String\<close>), no status, and nothing of the second and later values.
\<close>

theorem first_value_only_when_not_int:
  assumes "Get (injector ctx) TResponseWriter = Some SResponseWriter"
    and "Kind v \<noteq> KInt"
  shows "defaultReturnHandler ctx (v # w # vs) = defaultReturnHandler ctx [v] \<and>
         defaultReturnHandler ctx (v # w # vs) =
           Done () (ctx\<lparr>rw := rw_Write
             (let r = (if canDeref v then Elem v else v)
              in if isByteSlice r then Bytes r else String r) (rw ctx)\<rparr>) \<and>
         inner (rw (ctx_of (defaultReturnHandler ctx (v # w # vs)))) =
           inner (rw ctx) @
             [Write (let r = (if canDeref v then Elem v else v)
                     in if isByteSlice r then Bytes r else String r)]"
  using assms by (simp add: defaultReturnHandler_def Let_def rw_Write_def)

theorem first_value_only_when_not_int_witness:
  "Get (injector (createContext New [] ''GET /'')) TResponseWriter = Some SResponseWriter \<and>
   Kind (VString ''hello'') \<noteq> KInt \<and>
   inner (rw (ctx_of (defaultReturnHandler (createContext New [] ''GET /'')
       [VString ''hello'', VInt 500, VString ''dropped''])))
     = [Write ''hello'']"
proof -
  have g: "Get (injector (createContext New [] ''GET /'')) TResponseWriter = Some SResponseWriter"
    by (simp add: eval_defs)
  have k: "Kind (VString ''hello'') \<noteq> KInt" by simp
  from first_value_only_when_not_int [OF g k, of "VInt 500" "[VString ''dropped'']"]
  have "defaultReturnHandler (createContext New [] ''GET /'')
          [VString ''hello'', VInt 500, VString ''dropped''] =
        Done () ((createContext New [] ''GET /'')\<lparr>rw := rw_Write
          (let r = (if canDeref (VString ''hello'') then Elem (VString ''hello'')
                    else VString ''hello'')
           in if isByteSlice r then Bytes r else String r)
          (rw (createContext New [] ''GET /''))\<rparr>)"
    by blast
  with g k show ?thesis
    by (simp add: eval_defs)
qed


section \<open>Properties of the dispatch loop\<close>

lemmas dispatch_eval = eval_defs run.simps Invoke.simps Next.simps

text \<open>
  C1 as stated fails: that no handler writes to the response does not make the action
  run. A middleware with a parameter of a type that has no mapping writes nothing, and the
  request ends in the panic of \<open>run\<close> before any handler, the action included, is called.
\<close>

theorem action_once_after_all_middleware_counterexample:
  "list_all (\<lambda>h. list_all silent (body h))
     (chain (createContext
        (Use \<lparr>params = [TContextImpl], body = [DoWork 1], rescue = None, rets = []\<rparr> New)
        [] ''GET /'')) \<and>
   fault (ServeHTTP
        (Use \<lparr>params = [TContextImpl], body = [DoWork 1], rescue = None, rets = []\<rparr> New)
        [] ''GET /'') = Some (InvokeError TContextImpl) \<and>
   started (trace (ctx_of (ServeHTTP
        (Use \<lparr>params = [TContextImpl], body = [DoWork 1], rescue = None, rets = []\<rparr> New)
        [] ''GET /''))) = [] \<and>
   inner (rw (ctx_of (ServeHTTP
        (Use \<lparr>params = [TContextImpl], body = [DoWork 1], rescue = None, rets = []\<rparr> New)
        [] ''GET /''))) = []"
  by (simp add: dispatch_eval chain_def)

text \<open>
  C1 as amended. Take a chain of any length in which the response is unwritten, no
  handler and not the action writes to the response, and no invocation fails (all
  parameters resolve and no body panics). Running the context from cursor 0 returns, and
  what it adds to the log is exactly what is prescribed for the chain: the registered
  middleware are called in the order of registration, each at its own cursor value and
  each doing the steps of its body, and the action is called exactly once, after all of
  them, at the cursor value that is the length of the chain; this whether or not bodies
  call \<open>Next\<close>. The response is as it was.
\<close>

theorem action_once_after_all_middleware:
  assumes "quiet c" and "index c = 0"
  shows "\<exists>c'. run c = Done () c' \<and>
           trace c' = trace c @ prescribed (handlers c @ [action c]) 0 \<and>
           started (trace c') =
             started (trace c) @ zip [0..int (length (handlers c))] (handlers c @ [action c]) \<and>
           rw c' = rw c \<and> int (length (handlers c)) < index c'"
proof -
  from quiet_log(1)[of c] assms obtain c' where
    r: "run c = Done () c'" "rw c' = rw c" "int (length (handlers c)) < index c'"
    and t: "trace c' = trace c @ prescribed (chain c) 0"
    by auto
  have "started (prescribed (chain c) 0) = zip [0..int (length (handlers c))] (chain c)"
    by (simp add: started_prescribed chain_def)
  with r t show ?thesis by (simp add: chain_def)
qed

theorem action_once_after_all_middleware_witness:
  "quiet (createContext (Use \<lparr>params = [], body = [DoWork 8], rescue = None, rets = []\<rparr>
     (Use \<lparr>params = [TContext], body = [CallNext, DoWork 7], rescue = None, rets = []\<rparr> New))
     [] ''GET /'') \<and>
   trace (ctx_of (run (createContext
     (Use \<lparr>params = [], body = [DoWork 8], rescue = None, rets = []\<rparr>
     (Use \<lparr>params = [TContext], body = [CallNext, DoWork 7], rescue = None, rets = []\<rparr> New))
     [] ''GET /''))) =
   [Invoked 0 \<lparr>params = [TContext], body = [CallNext, DoWork 7], rescue = None, rets = []\<rparr> False,
    NextCalled False,
    Invoked 1 \<lparr>params = [], body = [DoWork 8], rescue = None, rets = []\<rparr> False,
    Worked 8,
    Invoked 2 empty_func False,
    Worked 7]"
proof -
  let ?c = "createContext (Use \<lparr>params = [], body = [DoWork 8], rescue = None, rets = []\<rparr>
     (Use \<lparr>params = [TContext], body = [CallNext, DoWork 7], rescue = None, rets = []\<rparr> New))
     [] ''GET /''"
  have q: "quiet ?c" by (simp add: quiet_def chain_def eval_defs)
  have i: "index ?c = 0" by (simp add: eval_defs)
  from action_once_after_all_middleware [OF q i] obtain c' where
    "run ?c = Done () c'"
    "trace c' = trace ?c @ prescribed (handlers ?c @ [action ?c]) 0"
    by blast
  then have "trace (ctx_of (run ?c)) = trace ?c @ prescribed (handlers ?c @ [action ?c]) 0"
    by simp
  also have "\<dots> =
   [Invoked 0 \<lparr>params = [TContext], body = [CallNext, DoWork 7], rescue = None, rets = []\<rparr> False,
    NextCalled False,
    Invoked 1 \<lparr>params = [], body = [DoWork 8], rescue = None, rets = []\<rparr> False,
    Worked 8,
    Invoked 2 empty_func False,
    Worked 7]"
    by (simp add: eval_defs)
  finally show ?thesis using q by simp
qed

text \<open>
  C2 as stated fails: a handler that writes to the response and then calls \<open>Next\<close> has
  the handler after it called, although the written signal is already true; the loop
  tests the signal only after a handler has returned.
\<close>

theorem written_stops_the_loop_counterexample:
  "trace (ctx_of (ServeHTTP
      (Action empty_func (Use empty_func
        (Use \<lparr>params = [TResponseWriter, TContext], body = [ResWrite ''x'', CallNext],
              rescue = None, rets = []\<rparr>
           New)))
      [] ''GET /''))
   = [Invoked 0 \<lparr>params = [TResponseWriter, TContext], body = [ResWrite ''x'', CallNext],
                  rescue = None, rets = []\<rparr> False,
      NextCalled True, Invoked 1 empty_func True]"
  by (simp add: dispatch_eval)

text \<open>
  C2 as amended. The written signal is tested when a handler has returned to the loop. If
  it is true then, the loop moves the cursor on by one and returns to its caller at once:
  its outcome is a return in the context that the handler left, with nothing else changed,
  so the handlers left, the action among them, are skipped. And in a request that starts
  with the response unwritten, if \<open>Next\<close> is never called while the signal is true, then
  no handler at all is called while it is true. (The signal never reverts, so "called
  with the signal true" is "called after the response was written".)
\<close>

theorem written_stops_the_loop:
  "(index c \<le> int (length (handlers c)) \<and> handler c = Inr h \<and>
      Invoke h c = Done (vals, None) c1 \<and> Written c1 \<longrightarrow>
        run c = Done () (c1\<lparr>index := index c1 + 1\<rparr>)) \<and>
   (\<not> Written c \<and> (\<forall>j h. Invoked j h True \<notin> set (trace c)) \<and>
      NextCalled True \<notin> set (trace (ctx_of (run c))) \<longrightarrow>
        (\<forall>j h. Invoked j h True \<notin> set (trace (ctx_of (run c)))))"
proof (intro conjI impI)
  assume "index c \<le> int (length (handlers c)) \<and> handler c = Inr h \<and>
      Invoke h c = Done (vals, None) c1 \<and> Written c1"
  then show "run c = Done () (c1\<lparr>index := index c1 + 1\<rparr>)"
    by (simp add: run.simps)
next
  assume "\<not> Written c \<and> (\<forall>j h. Invoked j h True \<notin> set (trace c)) \<and>
      NextCalled True \<notin> set (trace (ctx_of (run c)))"
  with called_unwritten(1)[of c]
  show "\<forall>j h. Invoked j h True \<notin> set (trace (ctx_of (run c)))" by blast
qed

theorem written_stops_the_loop_witness:
  "run (createContext (Use empty_func
      (Use \<lparr>params = [TResponseWriter], body = [ResWrite ''x''], rescue = None, rets = []\<rparr> New))
      [] ''GET /'') =
   Done () ((createContext (Use empty_func
      (Use \<lparr>params = [TResponseWriter], body = [ResWrite ''x''], rescue = None, rets = []\<rparr> New))
      [] ''GET /'')
     \<lparr>rw := \<lparr>inner = [Write ''x''], flushed = True\<rparr>, index := 1,
      trace := [Invoked 0
        \<lparr>params = [TResponseWriter], body = [ResWrite ''x''], rescue = None, rets = []\<rparr> False]\<rparr>) \<and>
   (\<forall>j h. Invoked j h True \<notin> set (trace (ctx_of (run (createContext (Use empty_func
      (Use \<lparr>params = [TResponseWriter], body = [ResWrite ''x''], rescue = None, rets = []\<rparr> New))
      [] ''GET /'')))))"
proof -
  let ?h = "\<lparr>params = [TResponseWriter], body = [ResWrite ''x''], rescue = None, rets = []\<rparr>"
  let ?c = "createContext (Use empty_func (Use ?h New)) [] ''GET /''"
  let ?c1 = "?c\<lparr>rw := \<lparr>inner = [Write ''x''], flushed = True\<rparr>,
      trace := [Invoked 0 ?h False]\<rparr>"
  have a: "index ?c \<le> int (length (handlers ?c))" by (simp add: eval_defs)
  have b: "handler ?c = Inr ?h" by (simp add: eval_defs)
  have i: "Invoke ?h ?c = Done ([], None) ?c1" by (simp add: dispatch_eval)
  have w: "Written ?c1" by (simp add: eval_defs)
  from written_stops_the_loop [of ?c ?h "[]" ?c1] a b i w
  have r: "run ?c = Done () (?c1\<lparr>index := index ?c1 + 1\<rparr>)" by blast
  then have t: "trace (ctx_of (run ?c)) = [Invoked 0 ?h False]" by simp
  have u: "\<not> Written ?c" by (simp add: eval_defs)
  have g: "\<forall>j h. Invoked j h True \<notin> set (trace ?c)" by (simp add: eval_defs)
  have n: "NextCalled True \<notin> set (trace (ctx_of (run ?c)))" by (simp add: t)
  from written_stops_the_loop [of ?c ?h "[]" ?c1] u g n
  have "\<forall>j h. Invoked j h True \<notin> set (trace (ctx_of (run ?c)))" by blast
  moreover from r have "run ?c = Done () (?c\<lparr>rw := \<lparr>inner = [Write ''x''], flushed = True\<rparr>,
      index := 1, trace := [Invoked 0 ?h False]\<rparr>)"
    by (simp add: eval_defs)
  ultimately show ?thesis by blast
qed


text \<open>
  C3 as stated fails. In the first chain the middleware at 0 calls \<open>Next\<close> and then does
  its work 7, and the middleware at 1 writes the response: the work is done although the
  action, at cursor 2, is never called. In the second chain the middleware at 1 does the
  same; the one at 2 writes; the one at 0 calls \<open>Next\<close> twice, and its second call has
  the action called, at cursor 5, after the work 7 was done.
\<close>

theorem work_after_Next_counterexample:
  "trace (ctx_of (ServeHTTP
      (Action empty_func
        (Use \<lparr>params = [TResponseWriter], body = [ResWrite ''x''], rescue = None, rets = []\<rparr>
          (Use \<lparr>params = [TContext], body = [CallNext, DoWork 7], rescue = None, rets = []\<rparr>
             New)))
      [] ''GET /''))
   = [Invoked 0 \<lparr>params = [TContext], body = [CallNext, DoWork 7], rescue = None, rets = []\<rparr>
        False,
      NextCalled False,
      Invoked 1 \<lparr>params = [TResponseWriter], body = [ResWrite ''x''], rescue = None, rets = []\<rparr>
        False,
      Worked 7] \<and>
   trace (ctx_of (ServeHTTP
      (Action empty_func
        (Handlers
          [\<lparr>params = [TContext], body = [CallNext, CallNext], rescue = None, rets = []\<rparr>,
           \<lparr>params = [TContext], body = [CallNext, DoWork 7], rescue = None, rets = []\<rparr>,
           \<lparr>params = [TResponseWriter], body = [ResWrite ''x''], rescue = None, rets = []\<rparr>,
           empty_func, empty_func] New))
      [] ''GET /''))
   = [Invoked 0 \<lparr>params = [TContext], body = [CallNext, CallNext], rescue = None, rets = []\<rparr>
        False,
      NextCalled False,
      Invoked 1 \<lparr>params = [TContext], body = [CallNext, DoWork 7], rescue = None, rets = []\<rparr>
        False,
      NextCalled False,
      Invoked 2 \<lparr>params = [TResponseWriter], body = [ResWrite ''x''], rescue = None, rets = []\<rparr>
        False,
      Worked 7, NextCalled True, Invoked 5 empty_func True]"
  by (simp add: dispatch_eval)

text \<open>
  C3 as amended. \<open>Next\<close> moves the cursor on and runs the loop before it returns. If it
  returns with the response still unwritten and no handler has recovered from a panic
  while it ran, then during it every middleware after the current cursor and the action
  were called, each once, in the order of registration and at its own cursor value, and
  the work that the body does right after \<open>Next\<close> is logged after all of them; no handler
  is called in the rest of that body. In a chain whose handlers neither write nor fail
  this is so for every such body, and the log shows the steps of all the later bodies done
  before that work: it is what is prescribed for the rest of the chain, then the work.
\<close>

theorem work_after_Next_follows_the_rest:
  "(Next c = Done () c1 \<and> \<not> Written c1 \<and> recoveries (trace c1) = recoveries (trace c) \<longrightarrow>
      started (trace c1) = started (trace c) @ upcoming c (index c + 1) \<and>
      (\<exists>t. trace (ctx_of (call (CallNext # DoWork x # ss) c)) = trace c1 @ Worked x # t \<and>
           started t = [])) \<and>
   (quiet c \<and> 0 \<le> index c \<and> list_all silent ss \<longrightarrow>
      (\<exists>c'. call (CallNext # DoWork x # ss) c = Done () c' \<and>
         trace c' = trace c @ NextCalled False #
           prescribed (drop (nat (index c + 1)) (chain c)) (index c + 1) @
           Worked x # weave ss []))"
proof -
  have dyn: "Next c = Done () c1 \<and> \<not> Written c1 \<and>
      recoveries (trace c1) = recoveries (trace c) \<longrightarrow>
      started (trace c1) = started (trace c) @ upcoming c (index c + 1) \<and>
      (\<exists>t. trace (ctx_of (call (CallNext # DoWork x # ss) c)) = trace c1 @ Worked x # t \<and>
           started t = [])"
  proof
    assume a: "Next c = Done () c1 \<and> \<not> Written c1 \<and>
        recoveries (trace c1) = recoveries (trace c)"
    with unwritten_traversal(4)[of c]
    have s: "started (trace c1) = started (trace c) @ upcoming c (index c + 1)"
      and b: "int (length (handlers c)) < index c1" by simp_all
    have f: "follows c c1" using frame(4)[of c] a by simp
    let ?c2 = "c1\<lparr>trace := trace c1 @ [Worked x]\<rparr>"
    from b follows_fields(1)[OF f] have "int (length (handlers ?c2)) < index ?c2" by simp
    from past_end_call[OF this, of ss] obtain t where
      "trace (ctx_of (call ss ?c2)) = trace ?c2 @ t" "started t = []" by blast
    with a s show "started (trace c1) = started (trace c) @ upcoming c (index c + 1) \<and>
        (\<exists>t. trace (ctx_of (call (CallNext # DoWork x # ss) c)) = trace c1 @ Worked x # t \<and>
             started t = [])"
      by simp
  qed
  have stat: "quiet c \<and> 0 \<le> index c \<and> list_all silent ss \<longrightarrow>
      (\<exists>c'. call (CallNext # DoWork x # ss) c = Done () c' \<and>
         trace c' = trace c @ NextCalled False #
           prescribed (drop (nat (index c + 1)) (chain c)) (index c + 1) @
           Worked x # weave ss [])"
    using quiet_log(3)[of c "CallNext # DoWork x # ss"] by auto
  from dyn stat show ?thesis by (rule conjI)
qed

theorem work_after_Next_follows_the_rest_witness:
  "quiet ((createContext (Use \<lparr>params = [], body = [DoWork 8], rescue = None, rets = []\<rparr>
        (Use \<lparr>params = [TContext], body = [CallNext, DoWork 7], rescue = None, rets = []\<rparr> New))
        [] ''GET /'')
      \<lparr>trace := [Invoked 0
         \<lparr>params = [TContext], body = [CallNext, DoWork 7], rescue = None, rets = []\<rparr> False]\<rparr>) \<and>
   trace (ctx_of (call [CallNext, DoWork 7]
     ((createContext (Use \<lparr>params = [], body = [DoWork 8], rescue = None, rets = []\<rparr>
        (Use \<lparr>params = [TContext], body = [CallNext, DoWork 7], rescue = None, rets = []\<rparr> New))
        [] ''GET /'')
      \<lparr>trace := [Invoked 0
         \<lparr>params = [TContext], body = [CallNext, DoWork 7], rescue = None, rets = []\<rparr> False]\<rparr>))) =
   [Invoked 0 \<lparr>params = [TContext], body = [CallNext, DoWork 7], rescue = None, rets = []\<rparr> False,
    NextCalled False,
    Invoked 1 \<lparr>params = [], body = [DoWork 8], rescue = None, rets = []\<rparr> False,
    Worked 8,
    Invoked 2 empty_func False,
    Worked 7]"
proof -
  let ?a = "\<lparr>params = [TContext], body = [CallNext, DoWork 7], rescue = None, rets = []\<rparr>"
  let ?b = "\<lparr>params = [], body = [DoWork 8], rescue = None, rets = []\<rparr>"
  let ?c = "(createContext (Use ?b (Use ?a New)) [] ''GET /'')\<lparr>trace := [Invoked 0 ?a False]\<rparr>"
  have q: "quiet ?c" by (simp add: quiet_def chain_def eval_defs)
  have z: "0 \<le> index ?c" by (simp add: eval_defs)
  from work_after_Next_follows_the_rest [of ?c _ 7 "[]"] q z obtain c' where
    "call [CallNext, DoWork 7] ?c = Done () c'"
    "trace c' = trace ?c @ NextCalled False #
       prescribed (drop (nat (index ?c + 1)) (chain ?c)) (index ?c + 1) @ Worked 7 # weave [] []"
    by auto
  then have "trace (ctx_of (call [CallNext, DoWork 7] ?c)) = trace ?c @ NextCalled False #
       prescribed (drop (nat (index ?c + 1)) (chain ?c)) (index ?c + 1) @ Worked 7 # weave [] []"
    by simp
  also have "\<dots> = [Invoked 0 ?a False, NextCalled False, Invoked 1 ?b False, Worked 8,
      Invoked 2 empty_func False, Worked 7]"
    by (simp add: eval_defs chain_def)
  finally show ?thesis using q by simp
qed

text \<open>
  C4 as stated fails: \<open>run\<close> keeps only the error of \<open>Invoke\<close> and drops the values.
  A request whose action returns a string and writes nothing itself leaves the response
  empty, where the default return handler, given that value, would have written it.
\<close>

theorem returned_values_reach_interpreter_counterexample:
  "inner (rw (ctx_of (ServeHTTP
      (Action \<lparr>params = [], body = [], rescue = None, rets = [VString ''hello'']\<rparr> New)
      [] ''GET /''))) = [] \<and>
   inner (rw (ctx_of (defaultReturnHandler
      (createContext
         (Action \<lparr>params = [], body = [], rescue = None, rets = [VString ''hello'']\<rparr> New)
         [] ''GET /'')
      [VString ''hello'']))) = [Write ''hello'']"
  by (simp add: dispatch_eval defaultReturnHandler_def)

text \<open>
  C4 as amended. The dispatch loop does not hand the values a handler returns to anything:
  running a context in which every handler and the action return nothing gives the same
  outcome (the same return or panic, response, cursor and log, the handlers named in the
  log being the same but for their values) as running it with the values they return.
\<close>

theorem returned_values_are_dropped:
  "run (forget_rets c) = on_ctx forget_rets (run c) \<and>
   fault (run (forget_rets c)) = fault (run c) \<and>
   rw (ctx_of (run (forget_rets c))) = rw (ctx_of (run c)) \<and>
   index (ctx_of (run (forget_rets c))) = index (ctx_of (run c)) \<and>
   trace (ctx_of (run (forget_rets c))) = map forget_event (trace (ctx_of (run c))) \<and>
   cursors (trace (ctx_of (run (forget_rets c)))) = cursors (trace (ctx_of (run c)))"
  by (cases "run c") (simp_all add: rets_ignored(1) cursors_forget)

theorem returned_values_are_dropped_witness:
  "run (forget_rets (createContext
      (Action \<lparr>params = [], body = [], rescue = None, rets = [VString ''hello'']\<rparr> New)
      [] ''GET /'')) =
   on_ctx forget_rets (run (createContext
      (Action \<lparr>params = [], body = [], rescue = None, rets = [VString ''hello'']\<rparr> New)
      [] ''GET /'')) \<and>
   rw (ctx_of (run (createContext
      (Action \<lparr>params = [], body = [], rescue = None, rets = [VString ''hello'']\<rparr> New)
      [] ''GET /''))) =
     \<lparr>inner = [], flushed = False\<rparr>"
  using returned_values_are_dropped [of "createContext
      (Action \<lparr>params = [], body = [], rescue = None, rets = [VString ''hello'']\<rparr> New)
      [] ''GET /''"]
  by (simp add: dispatch_eval)

text \<open>
  C5 as stated fails: a cursor above the length of the chain is reached in every request
  that is not cut short. With no middleware the action runs at cursor 0 and the loop leaves
  the cursor at 1.
\<close>

theorem cursor_beyond_chain_counterexample:
  "handlers (ctx_of (ServeHTTP New [] ''GET /'')) = [] \<and>
   index (ctx_of (ServeHTTP New [] ''GET /'')) = 1"
  by (simp add: dispatch_eval)

text \<open>
  C5 as amended. From a cursor that is not negative, \<open>run\<close> never moves the cursor back;
  \<open>context.handler\<close> never panics, neither on an invalid index nor out of the range of
  the list; the cursor values at which handlers are started go strictly up, each from the
  cursor at entry up to the length of the chain (the length standing for the action) and
  no more than the cursor at the end. A cursor above the length is what a run that ends
  with the response unwritten leaves behind.
\<close>

theorem cursor_goes_up_and_selects_within_chain:
  assumes "0 \<le> index c"
  shows "index c \<le> index (ctx_of (run c)) \<and>
         fault (run c) \<noteq> Some InvalidIndex \<and> fault (run c) \<noteq> Some IndexOutOfRange \<and>
         (\<exists>t. trace (ctx_of (run c)) = trace c @ t \<and> sorted_wrt (<) (cursors t) \<and>
            list_all (\<lambda>i. index c \<le> i \<and> i \<le> int (length (handlers c)) \<and>
                          i \<le> index (ctx_of (run c))) (cursors t)) \<and>
         (\<forall>c'. run c = Done () c' \<longrightarrow> \<not> Written c' \<longrightarrow> int (length (handlers c)) < index c')"
proof -
  have "follows c (ctx_of (run c))" by (rule frame(1))
  then have a: "index c \<le> index (ctx_of (run c))" by (simp add: follows_def)
  from cursor_order(1)[of c] assms have "in_order c (index c) (run c)" by simp
  then have b: "fault (run c) \<noteq> Some InvalidIndex" "fault (run c) \<noteq> Some IndexOutOfRange"
    and "\<exists>t. trace (ctx_of (run c)) = trace c @ t \<and>
          ascending (index c) (min (int (length (handlers c))) (index (ctx_of (run c)))) t"
    by (simp_all add: in_order_def)
  then have c: "\<exists>t. trace (ctx_of (run c)) = trace c @ t \<and> sorted_wrt (<) (cursors t) \<and>
            list_all (\<lambda>i. index c \<le> i \<and> i \<le> int (length (handlers c)) \<and>
                          i \<le> index (ctx_of (run c))) (cursors t)"
    by (auto simp: ascending_def list_all_iff)
  from unwritten_return_past_end[of c]
  have d: "\<forall>c'. run c = Done () c' \<longrightarrow> \<not> Written c' \<longrightarrow> int (length (handlers c)) < index c'"
    by blast
  from a b c d show ?thesis by blast
qed

theorem cursor_goes_up_and_selects_within_chain_witness:
  "0 \<le> index (createContext (Use empty_func
      (Use \<lparr>params = [TContext], body = [CallNext, DoWork 7], rescue = None, rets = []\<rparr> New))
      [] ''GET /'') \<and>
   index (ctx_of (run (createContext (Use empty_func
      (Use \<lparr>params = [TContext], body = [CallNext, DoWork 7], rescue = None, rets = []\<rparr> New))
      [] ''GET /''))) = 4 \<and>
   cursors (trace (ctx_of (run (createContext (Use empty_func
      (Use \<lparr>params = [TContext], body = [CallNext, DoWork 7], rescue = None, rets = []\<rparr> New))
      [] ''GET /'')))) = [0, 1, 2] \<and>
   fault (run (createContext (Use empty_func
      (Use \<lparr>params = [TContext], body = [CallNext, DoWork 7], rescue = None, rets = []\<rparr> New))
      [] ''GET /''))
     \<noteq> Some InvalidIndex"
proof -
  let ?c = "createContext (Use empty_func
      (Use \<lparr>params = [TContext], body = [CallNext, DoWork 7], rescue = None, rets = []\<rparr> New))
      [] ''GET /''"
  have z: "0 \<le> index ?c" by (simp add: eval_defs)
  have r: "index (ctx_of (run ?c)) = 4 \<and> cursors (trace (ctx_of (run ?c))) = [0, 1, 2]"
    by (simp add: dispatch_eval)
  from cursor_goes_up_and_selects_within_chain [OF z]
  have "fault (run ?c) \<noteq> Some InvalidIndex" by blast
  with z r show ?thesis by blast
qed

text \<open>
  C9 as stated fails at "fatal to that request": a middleware that recovers from panics,
  as the recovery middleware does, and calls \<open>Next\<close> has the request go on after the
  failure. Here the middleware at 1 has a parameter of a type with no mapping; the loop
  under the \<open>Next\<close> of the middleware at 0 panics with the error, that middleware recovers
  and returns, and the loop that called it goes on to call the action; the request returns.
\<close>

theorem invoke_failure_is_fatal_counterexample:
  "fault (ServeHTTP
      (Use \<lparr>params = [TContextImpl], body = [], rescue = None, rets = []\<rparr>
        (Use \<lparr>params = [TContext], body = [CallNext], rescue = Some [], rets = []\<rparr> New))
      [] ''GET /'') = None \<and>
   trace (ctx_of (ServeHTTP
      (Use \<lparr>params = [TContextImpl], body = [], rescue = None, rets = []\<rparr>
        (Use \<lparr>params = [TContext], body = [CallNext], rescue = Some [], rets = []\<rparr> New))
      [] ''GET /'')) =
   [Invoked 0 \<lparr>params = [TContext], body = [CallNext], rescue = Some [], rets = []\<rparr> False,
    NextCalled False, Raised (InvokeError TContextImpl), Recovered,
    Invoked 2 empty_func False]"
  by (simp add: dispatch_eval)

text \<open>
  C9 as amended. A failure of resolution or invocation is fatal to the loop it occurs in
  and to every body and loop around it, up to a handler that recovers: when a parameter of
  the current handler cannot be resolved, \<open>run\<close> panics with the error of \<open>Invoke\<close>, the
  handler not called, the cursor not moved, nothing tried again; and whatever a run adds
  to the log settles with its outcome, that is, a panic raised anywhere in it is either
  the last thing logged, and then the run ends in that very panic, or is followed at once
  by a handler's recovery, with no handler called and no step done in between. It is fatal
  to the request when no handler of the chain recovers: then a panic raised anywhere
  during the run, at whatever depth of \<open>Next\<close>, is the only one, is the last thing logged,
  and is the outcome of the run.
\<close>

theorem invoke_failure_is_fatal:
  "(index c \<le> int (length (handlers c)) \<and> handler c = Inr h \<and>
      first_missing (injector c) (params h) = Some ty \<longrightarrow>
        Invoke h c = Done ([], Some ty) c \<and>
        run c = Panic (InvokeError ty) (c\<lparr>trace := trace c @ [Raised (InvokeError ty)]\<rparr>)) \<and>
   (\<exists>t. trace (ctx_of (run c)) = trace c @ t \<and> settles t (run c)) \<and>
   (no_rescue c \<longrightarrow>
      (\<forall>t p. trace (ctx_of (run c)) = trace c @ t \<and> Raised p \<in> set t \<longrightarrow>
         run c = Panic p (ctx_of (run c)) \<and>
         (\<exists>t0. t = t0 @ [Raised p] \<and> (\<forall>q. Raised q \<notin> set t0))))"
proof -
  have one: "index c \<le> int (length (handlers c)) \<and> handler c = Inr h \<and>
      first_missing (injector c) (params h) = Some ty \<longrightarrow>
        Invoke h c = Done ([], Some ty) c \<and>
        run c = Panic (InvokeError ty) (c\<lparr>trace := trace c @ [Raised (InvokeError ty)]\<rparr>)"
    by (simp add: run.simps Invoke.simps)
  have two: "\<exists>t. trace (ctx_of (run c)) = trace c @ t \<and> settles t (run c)"
    by (rule panics_settle(1))
  have three: "no_rescue c \<longrightarrow>
      (\<forall>t p. trace (ctx_of (run c)) = trace c @ t \<and> Raised p \<in> set t \<longrightarrow>
         run c = Panic p (ctx_of (run c)) \<and>
         (\<exists>t0. t = t0 @ [Raised p] \<and> (\<forall>q. Raised q \<notin> set t0)))"
  proof (intro impI allI)
    fix t p
    assume nr: "no_rescue c"
      and a: "trace (ctx_of (run c)) = trace c @ t \<and> Raised p \<in> set t"
    from panics_settle(1)[of c] a have s: "settles t (run c)" by auto
    from no_rescue_no_recovery(1)[of c] nr a have "recoveries t = 0" by simp
    then have n: "Recovered \<notin> set t" by (simp add: recoveries_none)
    show "run c = Panic p (ctx_of (run c)) \<and>
           (\<exists>t0. t = t0 @ [Raised p] \<and> (\<forall>q. Raised q \<notin> set t0))"
    proof (cases "run c")
      case (Done u c')
      with s have "handled t" by simp
      from handled_no_recovery[OF this n] a show ?thesis by blast
    next
      case (Panic q c')
      with s obtain t0 where t0: "t = t0 @ [Raised q]" "handled t0" by auto
      with n have "Recovered \<notin> set t0" by simp
      from handled_no_recovery[OF t0(2) this] have none: "\<forall>r. Raised r \<notin> set t0" by blast
      with a t0(1) have "p = q" by auto
      with Panic t0(1) none show ?thesis by auto
    qed
  qed
  from one two three show ?thesis by (intro conjI)
qed

theorem invoke_failure_is_fatal_witness:
  "no_rescue (createContext
      (Use \<lparr>params = [TContextImpl], body = [DoWork 1], rescue = None, rets = []\<rparr>
        (Use \<lparr>params = [TContext], body = [CallNext, DoWork 7], rescue = None, rets = []\<rparr> New))
      [] ''GET /'') \<and>
   run (createContext
      (Use \<lparr>params = [TContextImpl], body = [DoWork 1], rescue = None, rets = []\<rparr>
        (Use \<lparr>params = [TContext], body = [CallNext, DoWork 7], rescue = None, rets = []\<rparr> New))
      [] ''GET /'') =
   Panic (InvokeError TContextImpl) ((createContext
      (Use \<lparr>params = [TContextImpl], body = [DoWork 1], rescue = None, rets = []\<rparr>
        (Use \<lparr>params = [TContext], body = [CallNext, DoWork 7], rescue = None, rets = []\<rparr> New))
      [] ''GET /'')
     \<lparr>index := 1,
      trace := [Invoked 0
          \<lparr>params = [TContext], body = [CallNext, DoWork 7], rescue = None, rets = []\<rparr> False,
        NextCalled False, Raised (InvokeError TContextImpl)]\<rparr>)"
proof -
  let ?a = "\<lparr>params = [TContext], body = [CallNext, DoWork 7], rescue = None, rets = []\<rparr>"
  let ?b = "\<lparr>params = [TContextImpl], body = [DoWork 1], rescue = None, rets = []\<rparr>"
  let ?c = "createContext (Use ?b (Use ?a New)) [] ''GET /''"
  let ?t = "[Invoked 0 ?a False, NextCalled False, Raised (InvokeError TContextImpl)]"
  have nr: "no_rescue ?c" by (simp add: no_rescue_def chain_def eval_defs)
  have c': "ctx_of (run ?c) = ?c\<lparr>index := 1, trace := ?t\<rparr>" by (simp add: dispatch_eval)
  then have t: "trace (ctx_of (run ?c)) = trace ?c @ ?t" by (simp add: eval_defs)
  have m: "Raised (InvokeError TContextImpl) \<in> set ?t" by simp
  from invoke_failure_is_fatal [of ?c] nr t m
  have "run ?c = Panic (InvokeError TContextImpl) (ctx_of (run ?c))" by blast
  with c' nr show ?thesis by simp
qed

section \<open>Properties of the application shell\<close>

text \<open>
  C8 as stated fails: the new context maps itself under the interface \<open>Context\<close> only.
  Nothing is stored under its concrete type, so a lookup of that type goes on to the
  global container, which in a new application has no such mapping.
\<close>

theorem self_not_mapped_as_concrete_type_counterexample:
  "\<not> (Get (injector (createContext New [] ''GET /'')) TContext = Some SContext \<and>
      Get (injector (createContext New [] ''GET /'')) (TypeOf SContext) = Some SContext)"
  by (simp add: eval_defs)

text \<open>
  C8 as amended. For every application and request the new context has the cursor 0 and an
  empty log, the chain and the action of the application, the decorated response writer,
  and a container whose parent is the global container and whose own mappings are three:
  the context itself under the interface \<open>Context\<close>, the decorated writer under the
  interface \<open>http.ResponseWriter\<close>, and the request under its own type. The concrete type
  of the context is looked up in the global container.
\<close>

theorem createContext_seeds:
  "index (createContext m res req) = 0 \<and>
   trace (createContext m res req) = [] \<and>
   handlers (createContext m res req) = m_handlers m \<and>
   action (createContext m res req) = m_action m \<and>
   rw (createContext m res req) = NewResponseWriter res \<and>
   parent (injector (createContext m res req)) = Some (m_injector m) \<and>
   mapped (injector (createContext m res req)) =
     [TContext \<mapsto> SContext, TResponseWriter \<mapsto> SResponseWriter, TRequest \<mapsto> SRequest req] \<and>
   Get (injector (createContext m res req)) TRequest = Some (SRequest req) \<and>
   Get (injector (createContext m res req)) TResponseWriter = Some SResponseWriter \<and>
   Get (injector (createContext m res req)) TContext = Some SContext \<and>
   Get (injector (createContext m res req)) TContextImpl = Get (m_injector m) TContextImpl \<and>
   ServeHTTP m res req = run (createContext m res req)"
  by (simp add: createContext_def inject_New_def Map_def ServeHTTP_def)

theorem createContext_seeds_witness:
  "index (createContext New [] ''GET /'') = 0 \<and>
   parent (injector (createContext New [] ''GET /'')) = Some (m_injector New) \<and>
   Get (injector (createContext New [] ''GET /'')) TRequest = Some (SRequest ''GET /'') \<and>
   Get (injector (createContext New [] ''GET /'')) TContextImpl = None"
  using createContext_seeds [of New "[]" "''GET /''"]
  by (simp add: New_def Map_def inject_New_def)

end
